theory Spec2Isabelle
  imports Main "HOL-Library.Word"
begin

unbundle bit_operations_syntax

section \<open>The kernel memory region authority (core/hle/kernel/k_memory_region.h)\<close>

text \<open>
  The header declares three classes: \<open>KMemoryRegion\<close> (an address range with a paired
  address, attribute bits and a type bitmask), \<open>KMemoryRegionTree\<close> (an ordered collection
  of regions) and \<open>KMemoryRegionAllocator\<close> (a bump arena of 200 region slots).
  \<open>u64\<close> and \<open>size_t\<close> are 64-bit words, \<open>u32\<close> is a 32-bit word; \<open>+\<close> and \<open>-\<close> wrap.
\<close>

type_synonym u64 = "64 word"
type_synonym u32 = "32 word"

text \<open>
  Modelled from the spec: the \<open>ASSERT\<close> macro of common/assert.h, which is not among the
  sources. The specification calls a failed assertion fatal (the process terminates), so
  a function that asserts returns \<open>Inl AssertionFailed\<close> where the condition is false and
  \<open>Inr\<close> of its result otherwise.
\<close>

datatype error = AssertionFailed

subsection \<open>KMemoryRegion\<close>

text \<open>The five private fields, each with the default member initialiser \<open>{}\<close> (zero).\<close>

record KMemoryRegion =
  address :: u64
  last_address :: u64
  pair_address :: u64
  attributes :: u32
  type_id :: u32

text \<open>
  The four constructors. The defaulted one and the two-argument one leave the remaining
  members at their initialiser \<open>{}\<close>; the four-argument one delegates to the five-argument
  one with \<open>std::numeric_limits<u64>::max()\<close> as the pair address.
\<close>

definition KMemoryRegion_default :: KMemoryRegion where
  "KMemoryRegion_default =
     \<lparr>address = 0, last_address = 0, pair_address = 0, attributes = 0, type_id = 0\<rparr>"

definition KMemoryRegion_bounds :: "u64 \<Rightarrow> u64 \<Rightarrow> KMemoryRegion" where
  "KMemoryRegion_bounds address' last_address' =
     \<lparr>address = address', last_address = last_address', pair_address = 0,
      attributes = 0, type_id = 0\<rparr>"

definition KMemoryRegion_full :: "u64 \<Rightarrow> u64 \<Rightarrow> u64 \<Rightarrow> u32 \<Rightarrow> u32 \<Rightarrow> KMemoryRegion" where
  "KMemoryRegion_full address' last_address' pair_address' attributes' type_id' =
     \<lparr>address = address', last_address = last_address', pair_address = pair_address',
      attributes = attributes', type_id = type_id'\<rparr>"

definition u64_max :: u64 where
  "u64_max = 0xFFFFFFFFFFFFFFFF"

definition KMemoryRegion_typed :: "u64 \<Rightarrow> u64 \<Rightarrow> u32 \<Rightarrow> u32 \<Rightarrow> KMemoryRegion" where
  "KMemoryRegion_typed address' last_address' attributes' type_id' =
     KMemoryRegion_full address' last_address' u64_max attributes' type_id'"

definition GetAddress :: "KMemoryRegion \<Rightarrow> u64" where
  "GetAddress r = address r"

definition GetPairAddress :: "KMemoryRegion \<Rightarrow> u64" where
  "GetPairAddress r = pair_address r"

definition GetLastAddress :: "KMemoryRegion \<Rightarrow> u64" where
  "GetLastAddress r = last_address r"

definition GetEndAddress :: "KMemoryRegion \<Rightarrow> u64" where
  "GetEndAddress r = GetLastAddress r + 1"

definition GetSize :: "KMemoryRegion \<Rightarrow> u64" where
  "GetSize r = GetEndAddress r - GetAddress r"

definition GetAttributes :: "KMemoryRegion \<Rightarrow> u32" where
  "GetAttributes r = attributes r"

definition GetType :: "KMemoryRegion \<Rightarrow> u32" where
  "GetType r = type_id r"

text \<open>\<open>Compare\<close> returns \<open>-1\<close>, \<open>0\<close> or \<open>1\<close>.\<close>

definition Compare :: "KMemoryRegion \<Rightarrow> KMemoryRegion \<Rightarrow> int" where
  "Compare lhs rhs =
     (if GetAddress lhs < GetAddress rhs then - 1
      else if GetAddress lhs \<le> GetLastAddress rhs then 0
      else 1)"

definition Reset :: "KMemoryRegion \<Rightarrow> u64 \<Rightarrow> u64 \<Rightarrow> u64 \<Rightarrow> u32 \<Rightarrow> u32 \<Rightarrow> KMemoryRegion" where
  "Reset r a la p rr t =
     r\<lparr>address := a, pair_address := p, last_address := la, attributes := rr, type_id := t\<rparr>"

definition IsDerivedFrom :: "KMemoryRegion \<Rightarrow> u32 \<Rightarrow> bool" where
  "IsDerivedFrom r type' \<longleftrightarrow> (GetType r OR type') = GetType r"

definition HasTypeAttribute :: "KMemoryRegion \<Rightarrow> u32 \<Rightarrow> bool" where
  "HasTypeAttribute r attr \<longleftrightarrow> (GetType r OR attr) = GetType r"

definition CanDerive :: "KMemoryRegion \<Rightarrow> u32 \<Rightarrow> bool" where
  "CanDerive r type' \<longleftrightarrow> (GetType r OR type') = type'"

definition SetType :: "KMemoryRegion \<Rightarrow> u32 \<Rightarrow> error + KMemoryRegion" where
  "SetType r type' =
     (if CanDerive r type' then Inr (r\<lparr>type_id := type'\<rparr>) else Inl AssertionFailed)"

definition Contains :: "KMemoryRegion \<Rightarrow> u64 \<Rightarrow> error + bool" where
  "Contains r addr =
     (if GetEndAddress r \<noteq> 0
      then Inr (GetAddress r \<le> addr \<and> addr \<le> GetLastAddress r)
      else Inl AssertionFailed)"

definition SetPairAddress :: "KMemoryRegion \<Rightarrow> u64 \<Rightarrow> KMemoryRegion" where
  "SetPairAddress r a = r\<lparr>pair_address := a\<rparr>"

definition SetTypeAttribute :: "KMemoryRegion \<Rightarrow> u32 \<Rightarrow> KMemoryRegion" where
  "SetTypeAttribute r attr = r\<lparr>type_id := type_id r OR attr\<rparr>"

subsection \<open>KMemoryRegionTree\<close>

text \<open>
  Modelled from the spec: \<open>TreeType\<close>, the intrusive red-black tree of
  common/intrusive_red_black_tree.h, which is not among the sources. The specification
  describes it as an ordered collection of regions keyed by \<open>Compare\<close>. The tree is the
  list of its regions in iteration order, from \<open>begin()\<close> to \<open>end()\<close>; a pointer to a
  region is the region itself, and \<open>nullptr\<close> and \<open>end()\<close> are \<open>None\<close>. The
  allocator back-reference is not part of the list.
\<close>

type_synonym KMemoryRegionTree = "KMemoryRegion list"

text \<open>
  Modelled from the spec: \<open>m_tree.find\<close>, the ordered search by the compare rule. Going
  through the regions in order, the search passes the regions the probe sorts after, stops
  with the region the probe compares equal to, and gives up at a region the probe sorts
  before.
\<close>

fun tree_find :: "KMemoryRegion \<Rightarrow> KMemoryRegionTree \<Rightarrow> KMemoryRegion option" where
  "tree_find probe [] = None"
| "tree_find probe (x # xs) =
     (if Compare probe x < 0 then None
      else if Compare probe x = 0 then Some x
      else tree_find probe xs)"

text \<open>
  Modelled from the spec: \<open>m_tree.insert\<close> and \<open>m_tree.erase\<close>. The new region goes in
  front of the first region it sorts before; \<open>erase\<close> takes the given region out.
\<close>

fun tree_insert :: "KMemoryRegion \<Rightarrow> KMemoryRegionTree \<Rightarrow> KMemoryRegionTree" where
  "tree_insert x [] = [x]"
| "tree_insert x (y # ys) =
     (if Compare x y < 0 then x # y # ys else y # tree_insert x ys)"

definition tree_erase :: "KMemoryRegion \<Rightarrow> KMemoryRegionTree \<Rightarrow> KMemoryRegionTree" where
  "tree_erase x t = remove1 x t"

text \<open>
  The probe of \<open>Find\<close> is \<open>KMemoryRegion(address, address, 0, 0)\<close>, the four-argument
  constructor.
\<close>

definition FindModifiable :: "KMemoryRegionTree \<Rightarrow> u64 \<Rightarrow> KMemoryRegion option" where
  "FindModifiable t addr = tree_find (KMemoryRegion_typed addr addr 0 0) t"

definition Find :: "KMemoryRegionTree \<Rightarrow> u64 \<Rightarrow> KMemoryRegion option" where
  "Find t addr = tree_find (KMemoryRegion_typed addr addr 0 0) t"

definition FindByType :: "KMemoryRegionTree \<Rightarrow> u32 \<Rightarrow> KMemoryRegion option" where
  "FindByType t type_id' = List.find (\<lambda>it. GetType it = type_id') t"

definition FindByTypeAndAttribute ::
  "KMemoryRegionTree \<Rightarrow> u32 \<Rightarrow> u32 \<Rightarrow> KMemoryRegion option" where
  "FindByTypeAndAttribute t type_id' attr =
     List.find (\<lambda>it. GetType it = type_id' \<and> GetAttributes it = attr) t"

definition FindFirstDerived :: "KMemoryRegionTree \<Rightarrow> u32 \<Rightarrow> KMemoryRegion option" where
  "FindFirstDerived t type_id' = List.find (\<lambda>it. IsDerivedFrom it type_id') t"

definition FindLastDerived :: "KMemoryRegionTree \<Rightarrow> u32 \<Rightarrow> KMemoryRegion option" where
  "FindLastDerived t type_id' =
     fold (\<lambda>it region. if IsDerivedFrom it type_id' then Some it else region) t None"

text \<open>\<open>DerivedRegionExtents\<close>: two region pointers, both \<open>nullptr\<close> by default.\<close>

record DerivedRegionExtents =
  first_region :: "KMemoryRegion option"
  last_region :: "KMemoryRegion option"

definition DerivedRegionExtents_default :: DerivedRegionExtents where
  "DerivedRegionExtents_default = \<lparr>first_region = None, last_region = None\<rparr>"

text \<open>The accessors dereference the pointers; \<open>None\<close> stands for dereferencing \<open>nullptr\<close>.\<close>

definition Extents_GetAddress :: "DerivedRegionExtents \<Rightarrow> u64 option" where
  "Extents_GetAddress e = map_option GetAddress (first_region e)"

definition Extents_GetLastAddress :: "DerivedRegionExtents \<Rightarrow> u64 option" where
  "Extents_GetLastAddress e = map_option GetLastAddress (last_region e)"

definition Extents_GetEndAddress :: "DerivedRegionExtents \<Rightarrow> u64 option" where
  "Extents_GetEndAddress e = map_option (\<lambda>la. la + 1) (Extents_GetLastAddress e)"

text \<open>The body of the loop of \<open>GetDerivedRegionExtents\<close>, for the region \<open>it\<close> points to.\<close>

definition extents_step ::
  "u32 \<Rightarrow> KMemoryRegion \<Rightarrow> DerivedRegionExtents \<Rightarrow> DerivedRegionExtents" where
  "extents_step type_id' it extents =
     (if IsDerivedFrom it type_id'
      then (if first_region extents = None
            then extents\<lparr>first_region := Some it\<rparr>
            else extents)\<lparr>last_region := Some it\<rparr>
      else extents)"

definition GetDerivedRegionExtents ::
  "KMemoryRegionTree \<Rightarrow> u32 \<Rightarrow> error + DerivedRegionExtents" where
  "GetDerivedRegionExtents t type_id' =
     (let extents = DerivedRegionExtents_default in
      if first_region extents \<noteq> None then Inl AssertionFailed
      else if last_region extents \<noteq> None then Inl AssertionFailed
      else
        let extents' = fold (extents_step type_id') t extents in
        if first_region extents' = None then Inl AssertionFailed
        else if last_region extents' = None then Inl AssertionFailed
        else Inr extents')"

text \<open>
  The invariants the specification puts on the data: every region has
  \<open>address <= last_address\<close>, and the regions of a tree are in address order and pairwise
  non-overlapping, so each region ends below the start of every later one.
\<close>

definition span :: "KMemoryRegion \<Rightarrow> u64 set" where
  "span r = {GetAddress r .. GetLastAddress r}"

definition tree_ok :: "KMemoryRegionTree \<Rightarrow> bool" where
  "tree_ok t \<longleftrightarrow>
     (\<forall>r\<in>set t. GetAddress r \<le> GetLastAddress r)
     \<and> sorted_wrt (\<lambda>a b. GetLastAddress a < GetAddress b) t"

definition non_overlapping :: "KMemoryRegionTree \<Rightarrow> bool" where
  "non_overlapping t \<longleftrightarrow>
     (\<forall>i<length t. \<forall>j<length t. i \<noteq> j \<longrightarrow> span (t ! i) \<inter> span (t ! j) = {})"

text \<open>
  What the specification says of a region: its bounds, its type and its attributes.
\<close>

definition region_view :: "KMemoryRegion \<Rightarrow> u64 \<times> u64 \<times> u32 \<times> u32" where
  "region_view r = (GetAddress r, GetLastAddress r, GetType r, GetAttributes r)"

text \<open>
  The range \<open>[addr, addr + size)\<close>, taken without wrap-around, lies in the span of \<open>r\<close>.
\<close>

definition range_within :: "u64 \<Rightarrow> u64 \<Rightarrow> KMemoryRegion \<Rightarrow> bool" where
  "range_within addr size' r \<longleftrightarrow>
     {unat addr ..< unat addr + unat size'}
       \<subseteq> {unat (GetAddress r) .. unat (GetLastAddress r)}"






subsection \<open>KMemoryRegionAllocator\<close>

text \<open>
  \<open>region_heap\<close> is the array of slots and \<open>num_regions\<close> the count of occupied ones
  (a \<open>size_t\<close> that the assertion keeps below the capacity, so it never wraps). The
  capacity \<open>MaxMemoryRegions\<close> is 200 in the source; \<open>Allocate_with\<close> is the body of
  \<open>Allocate\<close> with the capacity as an argument, and \<open>Allocate\<close> is its instance at 200.
  The pointer returned is the index of the slot.
\<close>

record KMemoryRegionAllocator =
  region_heap :: "KMemoryRegion list"
  num_regions :: nat

definition MaxMemoryRegions :: nat where
  "MaxMemoryRegions = 200"

definition KMemoryRegionAllocator_with :: "nat \<Rightarrow> KMemoryRegionAllocator" where
  "KMemoryRegionAllocator_with cap =
     \<lparr>region_heap = replicate cap KMemoryRegion_default, num_regions = 0\<rparr>"

definition KMemoryRegionAllocator_default :: KMemoryRegionAllocator where
  "KMemoryRegionAllocator_default = KMemoryRegionAllocator_with MaxMemoryRegions"

definition Allocate_with ::
  "nat \<Rightarrow> KMemoryRegionAllocator \<Rightarrow> KMemoryRegion
   \<Rightarrow> error + (nat \<times> KMemoryRegionAllocator)" where
  "Allocate_with cap a new_region =
     (if num_regions a < cap
      then Inr (num_regions a,
                a\<lparr>region_heap := (region_heap a)[num_regions a := new_region],
                  num_regions := num_regions a + 1\<rparr>)
      else Inl AssertionFailed)"

definition Allocate ::
  "KMemoryRegionAllocator \<Rightarrow> KMemoryRegion \<Rightarrow> error + (nat \<times> KMemoryRegionAllocator)" where
  "Allocate = Allocate_with MaxMemoryRegions"

text \<open>
  A sequence of \<open>Allocate\<close> calls, one per region to construct; it stops at the first
  failed assertion and otherwise returns the slots handed out and the final allocator.
\<close>

fun Allocate_all ::
  "nat \<Rightarrow> KMemoryRegionAllocator \<Rightarrow> KMemoryRegion list
   \<Rightarrow> error + (nat list \<times> KMemoryRegionAllocator)" where
  "Allocate_all cap a [] = Inr ([], a)"
| "Allocate_all cap a (r # rs) =
     (case Allocate_with cap a r of
        Inl e \<Rightarrow> Inl e
      | Inr (slot, a') \<Rightarrow>
          (case Allocate_all cap a' rs of
             Inl e \<Rightarrow> Inl e
           | Inr (slots, a'') \<Rightarrow> Inr (slot # slots, a'')))"

subsection \<open>Insertion into the tree\<close>

text \<open>
  The allocator after a successful \<open>Allocate\<close>: the region constructed in the next free
  slot and the count incremented.
\<close>

definition construct :: "KMemoryRegionAllocator \<Rightarrow> KMemoryRegion \<Rightarrow> KMemoryRegionAllocator" where
  "construct a new_region =
     a\<lparr>region_heap := (region_heap a)[num_regions a := new_region],
       num_regions := num_regions a + 1\<rparr>"

text \<open>
  Modelled from the spec: how the tree draws a new region from the allocator it holds a
  reference to (section 3): \<open>Allocate\<close> constructs the region in the next free slot, which
  is fatal when the arena is full (sections 4.1 and 7), and the region goes into the tree.
  The tree holds its regions by value, next to the arena.
\<close>

definition insert_new ::
  "KMemoryRegionAllocator \<Rightarrow> KMemoryRegionTree \<Rightarrow> KMemoryRegion
   \<Rightarrow> error + (KMemoryRegionAllocator \<times> KMemoryRegionTree)" where
  "insert_new a t new_region =
     (case Allocate a new_region of
        Inl e \<Rightarrow> Inl e
      | Inr (slot, a') \<Rightarrow> Inr (a', tree_insert new_region t))"

text \<open>
  Modelled from the spec: \<open>InsertDirectly\<close>, declared in the header and defined outside the
  sources. It inserts a new region with the given bounds, attributes and type without
  touching the existing ones; where the caller's guarantee of non-overlap fails, the
  position is the one \<open>tree_insert\<close> chooses.
\<close>

definition InsertDirectly ::
  "KMemoryRegionAllocator \<Rightarrow> KMemoryRegionTree \<Rightarrow> u64 \<Rightarrow> u64 \<Rightarrow> u32 \<Rightarrow> u32
   \<Rightarrow> error + (KMemoryRegionAllocator \<times> KMemoryRegionTree)" where
  "InsertDirectly a t addr last_addr attr type_id' =
     insert_new a t (KMemoryRegion_typed addr last_addr attr type_id')"

text \<open>
  Modelled from the spec: \<open>Insert\<close>, declared in the header and defined outside the
  sources. Following section 4.3 of the specification: locate the region containing
  \<open>addr\<close>; return false, with the tree and the allocator as they were, if there is none
  or if \<open>[addr, addr + size)\<close> runs past its last address; assert that it carries
  \<open>old_attr\<close>; take it out of the tree and put back the prefix before \<open>addr\<close> (when there
  is one) and the suffix after the inserted range (when there is one), both as the old
  region with new bounds, and the middle piece with \<open>new_attr\<close> and \<open>type_id\<close>. Regions are
  never destroyed, so the old region's instance becomes the first piece; every further
  piece is a new region drawn from the allocator, and the call is fatal when the arena
  has no slot left for it. The specification does not say which pair address the pieces
  get (here the old one).
\<close>

definition Insert ::
  "KMemoryRegionAllocator \<Rightarrow> KMemoryRegionTree \<Rightarrow> u64 \<Rightarrow> u64 \<Rightarrow> u32 \<Rightarrow> u32 \<Rightarrow> u32
   \<Rightarrow> error + (bool \<times> KMemoryRegionAllocator \<times> KMemoryRegionTree)" where
  "Insert a t addr size' type_id' new_attr old_attr =
     (case FindModifiable t addr of
        None \<Rightarrow> Inr (False, a, t)
      | Some found \<Rightarrow>
          if unat (GetLastAddress found) + 1 < unat addr + unat size' then Inr (False, a, t)
          else if GetAttributes found \<noteq> old_attr then Inl AssertionFailed
          else
            let inserted_region_end = addr + size';
                inserted_region_last = inserted_region_end - 1;
                middle = found\<lparr>address := addr, last_address := inserted_region_last,
                               attributes := new_attr, type_id := type_id'\<rparr>;
                t0 = tree_erase found t
            in
              (case (if GetAddress found < addr
                     then insert_new a (tree_insert (found\<lparr>last_address := addr - 1\<rparr>) t0)
                            middle
                     else Inr (a, tree_insert middle t0)) of
                 Inl e \<Rightarrow> Inl e
               | Inr (a1, t1) \<Rightarrow>
                   (case (if inserted_region_last < GetLastAddress found
                          then insert_new a1 t1 (found\<lparr>address := inserted_region_end\<rparr>)
                          else Inr (a1, t1)) of
                      Inl e \<Rightarrow> Inl e
                    | Inr (a2, t2) \<Rightarrow> Inr (True, a2, t2))))"

lemmas region_getters =
  GetAddress_def GetLastAddress_def GetPairAddress_def GetEndAddress_def
  GetAttributes_def GetType_def

section \<open>Properties of KMemoryRegion\<close>

lemma u64_max_eq: "u64_max = - 1"
  by (simp add: u64_max_def)

lemma unat_u64_max: "unat u64_max = 2 ^ 64 - 1"
  by (simp add: u64_max_def)

lemma end_address_zero_iff: "GetEndAddress r = 0 \<longleftrightarrow> last_address r = u64_max"
proof -
  have "last_address r + 1 = 0 \<longleftrightarrow> last_address r = - 1"
    by (metis add.commute add_eq_0_iff)
  then show ?thesis
    by (simp add: GetEndAddress_def GetLastAddress_def u64_max_eq)
qed

text \<open>
  C3. \<open>SetType\<close> succeeds exactly when \<open>CanDerive\<close> holds before the call, that is when
  \<open>(type_id | t) == t\<close>; otherwise the assertion fails. After a successful call the type
  bitmask is \<open>t\<close> and \<open>IsDerivedFrom t\<close> holds.
\<close>

theorem SetType_succeeds_iff_CanDerive:
  "((\<exists>r'. SetType r t = Inr r') \<longleftrightarrow> CanDerive r t)
   \<and> (CanDerive r t \<longleftrightarrow> (type_id r OR t) = t)
   \<and> (\<not> CanDerive r t \<longrightarrow> SetType r t = Inl AssertionFailed)
   \<and> (\<forall>r'. SetType r t = Inr r' \<longrightarrow> GetType r' = t \<and> IsDerivedFrom r' t)"
  by (auto simp: SetType_def CanDerive_def IsDerivedFrom_def GetType_def)

theorem SetType_succeeds_iff_CanDerive_witness:
  "CanDerive (KMemoryRegion_typed 0 0xFFFF 0 1) 3
   \<and> SetType (KMemoryRegion_typed 0 0xFFFF 0 1) 3 = Inr (KMemoryRegion_typed 0 0xFFFF 0 3)
   \<and> IsDerivedFrom (KMemoryRegion_typed 0 0xFFFF 0 3) 3
   \<and> \<not> CanDerive (KMemoryRegion_typed 0 0xFFFF 0 1) 2
   \<and> SetType (KMemoryRegion_typed 0 0xFFFF 0 1) 2 = Inl AssertionFailed"
  using SetType_succeeds_iff_CanDerive [of "KMemoryRegion_typed 0 0xFFFF 0 1" 3]
    SetType_succeeds_iff_CanDerive [of "KMemoryRegion_typed 0 0xFFFF 0 1" 2]
  by (simp add: SetType_def CanDerive_def IsDerivedFrom_def GetType_def
      KMemoryRegion_typed_def KMemoryRegion_full_def)

text \<open>
  C8 as stated fails: the assertion of \<open>Contains\<close> does not stop a query on a
  default-constructed region. That region has \<open>last_address = 0\<close>, so its end address is 1,
  the assertion passes and \<open>Contains 0\<close> answers true.
\<close>

theorem Contains_default_counterexample:
  "GetEndAddress KMemoryRegion_default = 1
   \<and> GetEndAddress KMemoryRegion_default \<noteq> 0
   \<and> GetSize KMemoryRegion_default = 1
   \<and> Contains KMemoryRegion_default 0 = Inr True
   \<and> Contains KMemoryRegion_default 0 \<noteq> Inl AssertionFailed"
  by (simp add: Contains_def GetSize_def region_getters KMemoryRegion_default_def)

text \<open>
  C8, amended. For a region whose end address \<open>last_address + 1\<close> (64-bit, wrapping) is not
  zero, \<open>Contains a\<close> returns whether \<open>address <= a <= last_address\<close>; when the end address
  is zero the assertion fails. The end address is zero exactly when \<open>last_address\<close> is the
  largest 64-bit value; a default-constructed region is not such a region, and
  \<open>Contains a\<close> on it returns whether \<open>a\<close> is 0.
\<close>

theorem Contains_iff_in_bounds:
  "(GetEndAddress r \<noteq> 0 \<longrightarrow>
      Contains r a = Inr (address r \<le> a \<and> a \<le> last_address r))
   \<and> (GetEndAddress r = 0 \<longrightarrow> Contains r a = Inl AssertionFailed)
   \<and> (GetEndAddress r = last_address r + 1)
   \<and> (GetEndAddress r = 0 \<longleftrightarrow> last_address r = u64_max)
   \<and> (Contains r a = Inl AssertionFailed \<longleftrightarrow> unat (last_address r) = 2 ^ 64 - 1)
   \<and> Contains KMemoryRegion_default a = Inr (a = 0)"
proof -
  have zero: "GetEndAddress r = 0 \<longleftrightarrow> last_address r = u64_max"
    by (rule end_address_zero_iff)
  have max: "last_address r = u64_max \<longleftrightarrow> unat (last_address r) = 2 ^ 64 - 1"
  proof
    assume "last_address r = u64_max"
    then show "unat (last_address r) = 2 ^ 64 - 1"
      by (simp add: unat_u64_max)
  next
    assume "unat (last_address r) = 2 ^ 64 - 1"
    then have "unat (last_address r) = unat u64_max"
      by (simp add: unat_u64_max)
    then show "last_address r = u64_max"
      by (simp only: word_unat_eq_iff)
  qed
  have fails: "Contains r a = Inl AssertionFailed \<longleftrightarrow> GetEndAddress r = 0"
    by (simp add: Contains_def)
  have dflt: "Contains KMemoryRegion_default a = Inr (a = 0)"
    by (auto simp: Contains_def region_getters KMemoryRegion_default_def)
  have bounds: "(GetEndAddress r \<noteq> 0 \<longrightarrow>
      Contains r a = Inr (address r \<le> a \<and> a \<le> last_address r))
   \<and> (GetEndAddress r = 0 \<longrightarrow> Contains r a = Inl AssertionFailed)
   \<and> (GetEndAddress r = last_address r + 1)"
    by (simp add: Contains_def region_getters)
  have exact: "Contains r a = Inl AssertionFailed \<longleftrightarrow> unat (last_address r) = 2 ^ 64 - 1"
    by (simp only: fails zero max)
  note inside = bounds [THEN conjunct1]
  note fatal = bounds [THEN conjunct2, THEN conjunct1]
  note end_address = bounds [THEN conjunct2, THEN conjunct2]
  from inside fatal end_address zero exact dflt show ?thesis
    by (intro conjI)
qed

theorem Contains_iff_in_bounds_witness:
  "GetEndAddress (KMemoryRegion_typed 0x1000 0x1FFF 0 0) \<noteq> 0
   \<and> Contains (KMemoryRegion_typed 0x1000 0x1FFF 0 0) 0x1800 = Inr True
   \<and> Contains (KMemoryRegion_typed 0x1000 0x1FFF 0 0) 0x2000 = Inr False
   \<and> GetEndAddress (KMemoryRegion_typed 0x1000 u64_max 0 0) = 0
   \<and> Contains (KMemoryRegion_typed 0x1000 u64_max 0 0) 0x1800 = Inl AssertionFailed"
  using Contains_iff_in_bounds [of "KMemoryRegion_typed 0x1000 0x1FFF 0 0" "0x1800"]
    Contains_iff_in_bounds [of "KMemoryRegion_typed 0x1000 0x1FFF 0 0" "0x2000"]
    Contains_iff_in_bounds [of "KMemoryRegion_typed 0x1000 u64_max 0 0" "0x1800"]
  by (simp add: region_getters KMemoryRegion_typed_def KMemoryRegion_full_def u64_max_def)

text \<open>
  C9 as stated fails: a region built by the two-argument constructor (bounds only) was not
  given a pair address, and its pair address is 0, not the largest 64-bit value.
\<close>

theorem pair_address_bounds_counterexample:
  "GetPairAddress (KMemoryRegion_bounds 0 0xFFFF) = 0
   \<and> GetPairAddress (KMemoryRegion_bounds 0 0xFFFF) \<noteq> 2 ^ 64 - 1
   \<and> GetPairAddress KMemoryRegion_default \<noteq> 2 ^ 64 - 1"
  by (simp add: GetPairAddress_def KMemoryRegion_bounds_def KMemoryRegion_default_def)

text \<open>
  C9, amended. A region constructed from bounds, attributes and type (the four-argument
  constructor) has pair address \<open>2^64 - 1\<close>; the five-argument constructor stores the pair
  address it is given; the default and the bounds-only constructors leave it at 0.
\<close>

theorem pair_address_by_constructor:
  "GetPairAddress (KMemoryRegion_typed a la attr ty) = u64_max
   \<and> unat (GetPairAddress (KMemoryRegion_typed a la attr ty)) = 2 ^ 64 - 1
   \<and> GetPairAddress (KMemoryRegion_full a la p attr ty) = p
   \<and> GetPairAddress (KMemoryRegion_bounds a la) = 0
   \<and> GetPairAddress KMemoryRegion_default = 0"
  by (simp add: GetPairAddress_def KMemoryRegion_typed_def KMemoryRegion_full_def
      KMemoryRegion_bounds_def KMemoryRegion_default_def unat_u64_max)

text \<open>
  C10. If \<open>IsDerivedFrom u\<close> and \<open>CanDerive t\<close> hold before \<open>SetType t\<close>, the call succeeds
  and afterwards both \<open>IsDerivedFrom u\<close> and \<open>IsDerivedFrom t\<close> hold: every bit of the old
  type is a bit of the new one.
\<close>

theorem SetType_preserves_derivation:
  assumes "IsDerivedFrom r u" and "CanDerive r t"
  shows "\<exists>r'. SetType r t = Inr r' \<and> IsDerivedFrom r' u \<and> IsDerivedFrom r' t"
proof -
  from assms have u: "type_id r OR u = type_id r" and t: "type_id r OR t = t"
    by (simp_all add: IsDerivedFrom_def CanDerive_def GetType_def)
  have "t OR u = (type_id r OR t) OR u"
    by (simp add: t)
  also have "\<dots> = t OR (type_id r OR u)"
    by (simp add: or.assoc or.commute or.left_commute)
  also have "\<dots> = t OR type_id r"
    by (simp only: u)
  also have "\<dots> = t"
    using t by (simp only: or.commute)
  finally have "t OR u = t" .
  with assms(2) show ?thesis
    by (simp add: SetType_def IsDerivedFrom_def GetType_def)
qed

theorem SetType_preserves_derivation_witness:
  "IsDerivedFrom (KMemoryRegion_typed 0 0xFFFF 0 3) 1
   \<and> CanDerive (KMemoryRegion_typed 0 0xFFFF 0 3) 7
   \<and> (\<exists>r'. SetType (KMemoryRegion_typed 0 0xFFFF 0 3) 7 = Inr r'
        \<and> IsDerivedFrom r' 1 \<and> IsDerivedFrom r' 7)"
proof -
  have d: "IsDerivedFrom (KMemoryRegion_typed 0 0xFFFF 0 3) 1"
    by (simp add: IsDerivedFrom_def GetType_def KMemoryRegion_typed_def KMemoryRegion_full_def)
  have c: "CanDerive (KMemoryRegion_typed 0 0xFFFF 0 3) 7"
    by (simp add: CanDerive_def GetType_def KMemoryRegion_typed_def KMemoryRegion_full_def)
  from SetType_preserves_derivation [OF d c] d c show ?thesis
    by simp
qed

section \<open>Properties of KMemoryRegionAllocator\<close>

lemma Allocate_all_ok:
  "n + length rs \<le> length h \<Longrightarrow>
   Allocate_all (length h) \<lparr>region_heap = h, num_regions = n\<rparr> rs =
     Inr ([n ..< n + length rs],
          \<lparr>region_heap = take n h @ rs @ drop (n + length rs) h,
           num_regions = n + length rs\<rparr>)"
proof (induction rs arbitrary: h n)
  case Nil
  then show ?case by simp
next
  case (Cons r rs)
  from Cons.prems have lt: "n < length h"
    by simp
  have step: "Allocate_with (length h) \<lparr>region_heap = h, num_regions = n\<rparr> r =
      Inr (n, \<lparr>region_heap = h[n := r], num_regions = Suc n\<rparr>)"
    using lt by (simp add: Allocate_with_def)
  have "Suc n + length rs \<le> length (h[n := r])"
    using Cons.prems by simp
  from Cons.IH [OF this]
  have rest: "Allocate_all (length h) \<lparr>region_heap = h[n := r], num_regions = Suc n\<rparr> rs =
     Inr ([Suc n ..< Suc n + length rs],
          \<lparr>region_heap = take (Suc n) (h[n := r]) @ rs @ drop (Suc n + length rs) (h[n := r]),
           num_regions = Suc n + length rs\<rparr>)"
    by simp
  have tk: "take (Suc n) (h[n := r]) = take n h @ [r]"
    using lt by (simp add: take_Suc_conv_app_nth)
  have up: "[n ..< n + length (r # rs)] = n # [Suc n ..< Suc n + length rs]"
    by (subst upt_rec) simp
  have "Allocate_all (length h) \<lparr>region_heap = h, num_regions = n\<rparr> (r # rs) =
     Inr (n # [Suc n ..< Suc n + length rs],
          \<lparr>region_heap = take (Suc n) (h[n := r]) @ rs @ drop (Suc n + length rs) (h[n := r]),
           num_regions = Suc n + length rs\<rparr>)"
    by (simp only: Allocate_all.simps step rest sum.case prod.case)
  also have "\<dots> = Inr ([n ..< n + length (r # rs)],
          \<lparr>region_heap = take n h @ (r # rs) @ drop (n + length (r # rs)) h,
           num_regions = n + length (r # rs)\<rparr>)"
    by (simp only: up tk) simp
  finally show ?case .
qed

lemma Allocate_all_exhausted:
  "c < num_regions a + length rs \<Longrightarrow> num_regions a \<le> c \<Longrightarrow>
   Allocate_all c a rs = Inl AssertionFailed"
proof (induction rs arbitrary: a)
  case Nil
  then show ?case by simp
next
  case (Cons r rs)
  show ?case
  proof (cases "num_regions a < c")
    case True
    let ?a' = "a\<lparr>region_heap := (region_heap a)[num_regions a := r],
                  num_regions := num_regions a + 1\<rparr>"
    have step: "Allocate_with c a r = Inr (num_regions a, ?a')"
      using True by (simp add: Allocate_with_def)
    have "Allocate_all c ?a' rs = Inl AssertionFailed"
      using Cons.prems True by (intro Cons.IH) simp_all
    with step show ?thesis by simp
  next
    case False
    then show ?thesis by (simp add: Allocate_with_def)
  qed
qed

text \<open>
  C5. With capacity \<open>c\<close>, a call made while fewer than \<open>c\<close> slots are occupied
  succeeds, constructs the region in the next free slot and increments the count; a call
  made with \<open>c\<close> slots occupied fails its assertion. From a fresh allocator any \<open>c\<close> or
  fewer calls succeed, filling the slots \<open>0, 1, ...\<close> in order, and the call number
  \<open>c + 1\<close> is fatal.
\<close>

theorem Allocate_capacity:
  "(num_regions a < c \<longrightarrow>
      Allocate_with c a r =
        Inr (num_regions a,
             a\<lparr>region_heap := (region_heap a)[num_regions a := r],
               num_regions := Suc (num_regions a)\<rparr>))
   \<and> (c \<le> num_regions a \<longrightarrow> Allocate_with c a r = Inl AssertionFailed)
   \<and> (length rs \<le> c \<longrightarrow>
        Allocate_all c (KMemoryRegionAllocator_with c) rs =
          Inr ([0 ..< length rs],
               \<lparr>region_heap = rs @ replicate (c - length rs) KMemoryRegion_default,
                num_regions = length rs\<rparr>))
   \<and> (length rs = Suc c \<longrightarrow>
        Allocate_all c (KMemoryRegionAllocator_with c) rs = Inl AssertionFailed)"
proof (intro conjI impI)
  assume "length rs \<le> c"
  then show "Allocate_all c (KMemoryRegionAllocator_with c) rs =
          Inr ([0 ..< length rs],
               \<lparr>region_heap = rs @ replicate (c - length rs) KMemoryRegion_default,
                num_regions = length rs\<rparr>)"
    using Allocate_all_ok [of 0 rs "replicate c KMemoryRegion_default"]
    by (simp add: KMemoryRegionAllocator_with_def)
next
  assume "length rs = Suc c"
  then show "Allocate_all c (KMemoryRegionAllocator_with c) rs = Inl AssertionFailed"
    using Allocate_all_exhausted [of c "KMemoryRegionAllocator_with c" rs]
    by (simp add: KMemoryRegionAllocator_with_def)
qed (simp_all add: Allocate_with_def)

theorem Allocate_capacity_witness:
  "Allocate_all 2 (KMemoryRegionAllocator_with 2)
     [KMemoryRegion_typed 0 0xFFF 0 1, KMemoryRegion_typed 0x1000 0x1FFF 0 1] =
     Inr ([0, 1],
          \<lparr>region_heap = [KMemoryRegion_typed 0 0xFFF 0 1, KMemoryRegion_typed 0x1000 0x1FFF 0 1],
           num_regions = 2\<rparr>)
   \<and> Allocate_all 2 (KMemoryRegionAllocator_with 2)
     [KMemoryRegion_typed 0 0xFFF 0 1, KMemoryRegion_typed 0x1000 0x1FFF 0 1,
      KMemoryRegion_typed 0x2000 0x2FFF 0 1] = Inl AssertionFailed"
  using Allocate_capacity [of _ 2 _
      "[KMemoryRegion_typed 0 0xFFF 0 1, KMemoryRegion_typed 0x1000 0x1FFF 0 1]"]
    Allocate_capacity [of _ 2 _
      "[KMemoryRegion_typed 0 0xFFF 0 1, KMemoryRegion_typed 0x1000 0x1FFF 0 1,
        KMemoryRegion_typed 0x2000 0x2FFF 0 1]"]
  by (simp add: upt_rec)

text \<open>The allocator of the source has 200 slots: its call number 201 is fatal.\<close>

lemma Allocate_exhausts_at_200:
  "length rs = 201 \<Longrightarrow>
   Allocate_all MaxMemoryRegions KMemoryRegionAllocator_default rs = Inl AssertionFailed"
  using Allocate_all_exhausted [of MaxMemoryRegions KMemoryRegionAllocator_default rs]
  by (simp add: MaxMemoryRegions_def KMemoryRegionAllocator_default_def
      KMemoryRegionAllocator_with_def)

section \<open>Derived region extents\<close>

lemma fold_extents_step:
  "fold (extents_step ty) t e =
     (case filter (\<lambda>r. IsDerivedFrom r ty) t of
        [] \<Rightarrow> e
      | d # ds \<Rightarrow>
          \<lparr>first_region = (if first_region e = None then Some d else first_region e),
           last_region = Some (last (d # ds))\<rparr>)"
proof (induction t arbitrary: e)
  case Nil
  then show ?case by simp
next
  case (Cons x xs)
  show ?case
  proof (cases "IsDerivedFrom x ty")
    case True
    then have step: "extents_step ty x e =
        \<lparr>first_region = (if first_region e = None then Some x else first_region e),
         last_region = Some x\<rparr>"
      by (cases e) (simp add: extents_step_def)
    have "fold (extents_step ty) (x # xs) e = fold (extents_step ty) xs (extents_step ty x e)"
      by simp
    also have "\<dots> =
        (case filter (\<lambda>r. IsDerivedFrom r ty) xs of
           [] \<Rightarrow> extents_step ty x e
         | d # ds \<Rightarrow>
            \<lparr>first_region = (if first_region (extents_step ty x e) = None then Some d
                              else first_region (extents_step ty x e)),
             last_region = Some (last (d # ds))\<rparr>)"
      by (rule Cons.IH)
    finally show ?thesis
      using True by (auto simp: step split: list.split)
  next
    case False
    then have "extents_step ty x e = e"
      by (simp add: extents_step_def)
    then show ?thesis
      using False by (simp add: Cons.IH)
  qed
qed

lemma find_as_filter:
  "List.find P xs = (case filter P xs of [] \<Rightarrow> None | x # _ \<Rightarrow> Some x)"
  by (induction xs) simp_all

lemma fold_last_match:
  "fold (\<lambda>it region. if P it then Some it else region) xs acc =
     (case filter P xs of [] \<Rightarrow> acc | d # ds \<Rightarrow> Some (last (d # ds)))"
  by (induction xs arbitrary: acc) (simp_all split: list.split)

lemma sorted_wrt_hd:
  "sorted_wrt R xs \<Longrightarrow> x \<in> set xs \<Longrightarrow> x = hd xs \<or> R (hd xs) x"
  by (cases xs) auto

lemma sorted_wrt_last:
  "sorted_wrt R xs \<Longrightarrow> x \<in> set xs \<Longrightarrow> x = last xs \<or> R x (last xs)"
  by (induction xs) (auto split: if_splits)

lemma tree_ok_filter: "tree_ok t \<Longrightarrow> tree_ok (filter P t)"
  by (simp add: tree_ok_def sorted_wrt_filter)

lemma tree_ok_first:
  assumes "tree_ok t" and "d \<in> set t"
  shows "address (hd t) \<le> address d"
proof -
  from assms have "d = hd t \<or> last_address (hd t) < address d"
    using sorted_wrt_hd [of "\<lambda>a b. last_address a < address b" t d]
    by (simp add: tree_ok_def region_getters)
  moreover from assms have "address (hd t) \<le> last_address (hd t)"
    by (cases t) (auto simp: tree_ok_def region_getters)
  ultimately show ?thesis by auto
qed

lemma tree_ok_last:
  assumes "tree_ok t" and "d \<in> set t"
  shows "last_address d \<le> last_address (last t)"
proof -
  from assms have "d = last t \<or> last_address d < address (last t)"
    using sorted_wrt_last [of "\<lambda>a b. last_address a < address b" t d]
    by (simp add: tree_ok_def region_getters)
  moreover from assms have "address (last t) \<le> last_address (last t)"
    by (cases t rule: rev_cases) (auto simp: tree_ok_def region_getters)
  ultimately show ?thesis by auto
qed

text \<open>
  C7. \<open>GetDerivedRegionExtents\<close> fails its assertion when no stored region satisfies
  \<open>IsDerivedFrom\<close>. Otherwise it returns the first and the last derived region in
  iteration order, the ones \<open>FindFirstDerived\<close> and \<open>FindLastDerived\<close> return, and its
  extent is the address of the first and the last address of the last; in a well-formed
  tree iteration order is address order, so no derived region starts below that address
  or ends above that last address.
\<close>

theorem GetDerivedRegionExtents_first_last:
  "(\<not> (\<exists>r\<in>set t. IsDerivedFrom r ty) \<longrightarrow>
      GetDerivedRegionExtents t ty = Inl AssertionFailed)
   \<and> ((\<exists>r\<in>set t. IsDerivedFrom r ty) \<longrightarrow>
      (\<exists>f l. GetDerivedRegionExtents t ty = Inr \<lparr>first_region = Some f, last_region = Some l\<rparr>
         \<and> f = hd (filter (\<lambda>r. IsDerivedFrom r ty) t)
         \<and> l = last (filter (\<lambda>r. IsDerivedFrom r ty) t)
         \<and> FindFirstDerived t ty = Some f
         \<and> FindLastDerived t ty = Some l
         \<and> Extents_GetAddress \<lparr>first_region = Some f, last_region = Some l\<rparr>
             = Some (address f)
         \<and> Extents_GetLastAddress \<lparr>first_region = Some f, last_region = Some l\<rparr>
             = Some (last_address l)
         \<and> (tree_ok t \<longrightarrow>
              (\<forall>d\<in>set t. IsDerivedFrom d ty \<longrightarrow>
                 address f \<le> address d \<and> last_address d \<le> last_address l))))"
proof (intro conjI impI)
  assume "\<not> (\<exists>r\<in>set t. IsDerivedFrom r ty)"
  then have "filter (\<lambda>r. IsDerivedFrom r ty) t = []"
    by (simp add: filter_empty_conv)
  then show "GetDerivedRegionExtents t ty = Inl AssertionFailed"
    by (simp add: GetDerivedRegionExtents_def DerivedRegionExtents_default_def
        fold_extents_step)
next
  let ?ds = "filter (\<lambda>r. IsDerivedFrom r ty) t"
  assume "\<exists>r\<in>set t. IsDerivedFrom r ty"
  then have "?ds \<noteq> []"
    by (simp add: filter_empty_conv)
  then obtain d ds where ds: "?ds = d # ds"
    by (cases ?ds) auto
  have run: "GetDerivedRegionExtents t ty =
      Inr \<lparr>first_region = Some (hd ?ds), last_region = Some (last ?ds)\<rparr>"
    by (simp add: GetDerivedRegionExtents_def DerivedRegionExtents_default_def
        fold_extents_step ds)
  have first: "FindFirstDerived t ty = Some (hd ?ds)"
    by (simp add: FindFirstDerived_def find_as_filter ds)
  have last: "FindLastDerived t ty = Some (last ?ds)"
    by (simp add: FindLastDerived_def fold_last_match ds)
  have order: "address (hd ?ds) \<le> address x \<and> last_address x \<le> last_address (last ?ds)"
    if "tree_ok t" and "x \<in> set t" and "IsDerivedFrom x ty" for x
  proof -
    from that have "tree_ok ?ds" and "x \<in> set ?ds"
      by (simp_all add: tree_ok_filter)
    then show ?thesis
      by (simp add: tree_ok_first tree_ok_last)
  qed
  show "\<exists>f l. GetDerivedRegionExtents t ty = Inr \<lparr>first_region = Some f, last_region = Some l\<rparr>
         \<and> f = hd ?ds \<and> l = last ?ds
         \<and> FindFirstDerived t ty = Some f
         \<and> FindLastDerived t ty = Some l
         \<and> Extents_GetAddress \<lparr>first_region = Some f, last_region = Some l\<rparr>
             = Some (address f)
         \<and> Extents_GetLastAddress \<lparr>first_region = Some f, last_region = Some l\<rparr>
             = Some (last_address l)
         \<and> (tree_ok t \<longrightarrow>
              (\<forall>d\<in>set t. IsDerivedFrom d ty \<longrightarrow>
                 address f \<le> address d \<and> last_address d \<le> last_address l))"
    using run first last order
    by (simp add: Extents_GetAddress_def Extents_GetLastAddress_def region_getters)
qed

theorem GetDerivedRegionExtents_first_last_witness:
  "tree_ok [KMemoryRegion_typed 0 0xFFF 0 1, KMemoryRegion_typed 0x1000 0x1FFF 0 3,
            KMemoryRegion_typed 0x2000 0x2FFF 0 2, KMemoryRegion_typed 0x3000 0x3FFF 0 7]
   \<and> GetDerivedRegionExtents
        [KMemoryRegion_typed 0 0xFFF 0 1, KMemoryRegion_typed 0x1000 0x1FFF 0 3,
         KMemoryRegion_typed 0x2000 0x2FFF 0 2, KMemoryRegion_typed 0x3000 0x3FFF 0 7] 1
       = Inr \<lparr>first_region = Some (KMemoryRegion_typed 0 0xFFF 0 1),
              last_region = Some (KMemoryRegion_typed 0x3000 0x3FFF 0 7)\<rparr>
   \<and> GetDerivedRegionExtents
        [KMemoryRegion_typed 0 0xFFF 0 1, KMemoryRegion_typed 0x1000 0x1FFF 0 3,
         KMemoryRegion_typed 0x2000 0x2FFF 0 2, KMemoryRegion_typed 0x3000 0x3FFF 0 7] 8
       = Inl AssertionFailed"
proof -
  let ?t = "[KMemoryRegion_typed 0 0xFFF 0 1, KMemoryRegion_typed 0x1000 0x1FFF 0 3,
             KMemoryRegion_typed 0x2000 0x2FFF 0 2, KMemoryRegion_typed 0x3000 0x3FFF 0 7]"
  have ok: "tree_ok ?t"
    by (simp add: tree_ok_def region_getters KMemoryRegion_typed_def KMemoryRegion_full_def)
  have some: "\<exists>r\<in>set ?t. IsDerivedFrom r 1"
    by (simp add: IsDerivedFrom_def GetType_def KMemoryRegion_typed_def KMemoryRegion_full_def)
  have none: "\<not> (\<exists>r\<in>set ?t. IsDerivedFrom r 8)"
    by (simp add: IsDerivedFrom_def GetType_def KMemoryRegion_typed_def KMemoryRegion_full_def)
  from GetDerivedRegionExtents_first_last [of ?t 1] some
  have "GetDerivedRegionExtents ?t 1 =
      Inr \<lparr>first_region = Some (hd (filter (\<lambda>r. IsDerivedFrom r 1) ?t)),
           last_region = Some (last (filter (\<lambda>r. IsDerivedFrom r 1) ?t))\<rparr>"
    by blast
  moreover have "filter (\<lambda>r. IsDerivedFrom r 1) ?t =
      [KMemoryRegion_typed 0 0xFFF 0 1, KMemoryRegion_typed 0x1000 0x1FFF 0 3,
       KMemoryRegion_typed 0x3000 0x3FFF 0 7]"
    by (simp add: IsDerivedFrom_def GetType_def KMemoryRegion_typed_def KMemoryRegion_full_def)
  moreover from GetDerivedRegionExtents_first_last [of ?t 8] none
  have "GetDerivedRegionExtents ?t 8 = Inl AssertionFailed"
    by blast
  ultimately show ?thesis
    using ok by simp
qed

section \<open>Point lookup\<close>

lemma Compare_probe:
  "Compare (KMemoryRegion_typed a a x y) s =
     (if a < address s then - 1 else if a \<le> last_address s then 0 else 1)"
  by (simp add: Compare_def region_getters KMemoryRegion_typed_def KMemoryRegion_full_def)

lemma tree_ok_Cons:
  "tree_ok (x # xs) \<longleftrightarrow>
     address x \<le> last_address x \<and> (\<forall>y\<in>set xs. last_address x < address y) \<and> tree_ok xs"
  by (auto simp: tree_ok_def region_getters)

lemma tree_find_stored:
  "tree_ok t \<Longrightarrow> r \<in> set t \<Longrightarrow> address r \<le> a \<Longrightarrow> a \<le> last_address r \<Longrightarrow>
   tree_find (KMemoryRegion_typed a a x y) t = Some r"
proof (induction t)
  case Nil
  then show ?case by simp
next
  case (Cons z zs)
  from Cons.prems(1) have z: "address z \<le> last_address z"
    and after: "\<forall>y\<in>set zs. last_address z < address y" and zs: "tree_ok zs"
    by (simp_all add: tree_ok_Cons)
  show ?case
  proof (cases "r = z")
    case True
    with Cons.prems show ?thesis
      by (simp add: Compare_probe)
  next
    case False
    with Cons.prems have r: "r \<in> set zs" by simp
    with after have "last_address z < address r" by blast
    with Cons.prems(3) have "last_address z < a" by simp
    with z have "\<not> a < address z" "\<not> a \<le> last_address z"
      by auto
    then show ?thesis
      using Cons.IH [OF zs r Cons.prems(3,4)] by (simp add: Compare_probe)
  qed
qed

lemma tree_find_Some:
  "tree_find probe t = Some f \<Longrightarrow> f \<in> set t \<and> Compare probe f = 0"
  by (induction t) (auto split: if_splits)

lemma tree_ok_unique:
  assumes "tree_ok t" and "r \<in> set t" and "s \<in> set t"
    and "address r \<le> a" "a \<le> last_address r" "address s \<le> a" "a \<le> last_address s"
  shows "s = r"
proof -
  from assms have "tree_find (KMemoryRegion_typed a a 0 0) t = Some r"
    by (intro tree_find_stored)
  moreover from assms have "tree_find (KMemoryRegion_typed a a 0 0) t = Some s"
    by (intro tree_find_stored)
  ultimately show ?thesis by simp
qed

text \<open>
  C2. In a well-formed tree, \<open>Find a\<close> returns the stored region whose span contains
  \<open>a\<close>. The probe \<open>KMemoryRegion(a, a, 0, 0)\<close> compares equal to a stored region exactly
  when the region's span contains \<open>a\<close>, which only that region does; it sorts before
  exactly the stored regions that start above \<open>a\<close> and after exactly those whose last
  address is below \<open>a\<close>.
\<close>

theorem Find_returns_containing_region:
  assumes "tree_ok t" and "r \<in> set t" and "address r \<le> a" and "a \<le> last_address r"
  shows "Find t a = Some r
    \<and> (\<forall>s\<in>set t.
         (Compare (KMemoryRegion_typed a a 0 0) s = 0
            \<longleftrightarrow> address s \<le> a \<and> a \<le> last_address s)
       \<and> (Compare (KMemoryRegion_typed a a 0 0) s = 0 \<longleftrightarrow> s = r)
       \<and> (Compare (KMemoryRegion_typed a a 0 0) s = - 1 \<longleftrightarrow> a < address s)
       \<and> (Compare (KMemoryRegion_typed a a 0 0) s = 1 \<longleftrightarrow> last_address s < a))"
proof (intro conjI ballI)
  show "Find t a = Some r"
    using assms by (simp add: Find_def tree_find_stored)
next
  fix s assume s: "s \<in> set t"
  with assms(1) have valid: "address s \<le> last_address s"
    by (auto simp: tree_ok_def region_getters)
  show in_span: "Compare (KMemoryRegion_typed a a 0 0) s = 0
      \<longleftrightarrow> address s \<le> a \<and> a \<le> last_address s"
    by (auto simp: Compare_probe)
  show "Compare (KMemoryRegion_typed a a 0 0) s = 0 \<longleftrightarrow> s = r"
    using in_span assms s tree_ok_unique [of t r s a] by auto
  show "Compare (KMemoryRegion_typed a a 0 0) s = - 1 \<longleftrightarrow> a < address s"
    by (simp add: Compare_probe)
  show "Compare (KMemoryRegion_typed a a 0 0) s = 1 \<longleftrightarrow> last_address s < a"
    using valid by (auto simp: Compare_probe)
qed

theorem Find_returns_containing_region_witness:
  "tree_ok [KMemoryRegion_typed 0 0xFFF 0 1, KMemoryRegion_typed 0x1000 0x1FFF 1 3,
            KMemoryRegion_typed 0x2000 0xFFFF 0 1]
   \<and> Find [KMemoryRegion_typed 0 0xFFF 0 1, KMemoryRegion_typed 0x1000 0x1FFF 1 3,
            KMemoryRegion_typed 0x2000 0xFFFF 0 1] 0x1800
       = Some (KMemoryRegion_typed 0x1000 0x1FFF 1 3)
   \<and> Compare (KMemoryRegion_typed 0x1800 0x1800 0 0) (KMemoryRegion_typed 0 0xFFF 0 1) = 1
   \<and> Compare (KMemoryRegion_typed 0x1800 0x1800 0 0) (KMemoryRegion_typed 0x1000 0x1FFF 1 3) = 0
   \<and> Compare (KMemoryRegion_typed 0x1800 0x1800 0 0) (KMemoryRegion_typed 0x2000 0xFFFF 0 1) = - 1"
proof -
  let ?t = "[KMemoryRegion_typed 0 0xFFF 0 1, KMemoryRegion_typed 0x1000 0x1FFF 1 3,
             KMemoryRegion_typed 0x2000 0xFFFF 0 1]"
  let ?r = "KMemoryRegion_typed 0x1000 0x1FFF 1 3"
  have ok: "tree_ok ?t"
    by (simp add: tree_ok_def region_getters KMemoryRegion_typed_def KMemoryRegion_full_def)
  have mem: "?r \<in> set ?t"
    by simp
  have lo: "address ?r \<le> 0x1800" and hi: "0x1800 \<le> last_address ?r"
    by (simp_all add: KMemoryRegion_typed_def KMemoryRegion_full_def)
  from Find_returns_containing_region [OF ok mem lo hi] ok show ?thesis
    by (simp add: KMemoryRegion_typed_def KMemoryRegion_full_def)
qed

section \<open>Insertion by splitting\<close>

lemma range_within_iff:
  "range_within addr sz r \<longleftrightarrow>
     sz = 0 \<or> (address r \<le> addr \<and> unat addr + unat sz \<le> unat (last_address r) + 1)"
proof (cases "sz = 0")
  case True
  then show ?thesis by (simp add: range_within_def)
next
  case False
  then have pos: "0 < unat sz"
    by (simp add: unat_gt_0)
  show ?thesis
  proof
    assume "range_within addr sz r"
    then have sub: "{unat addr ..< unat addr + unat sz}
        \<subseteq> {unat (address r) .. unat (last_address r)}"
      by (simp add: range_within_def region_getters)
    from pos have m1: "unat addr \<in> {unat addr ..< unat addr + unat sz}"
      and m2: "unat addr + unat sz - 1 \<in> {unat addr ..< unat addr + unat sz}"
      by simp_all
    from subsetD [OF sub m1] subsetD [OF sub m2]
    have "unat (address r) \<le> unat addr"
      and "unat addr + unat sz - 1 \<le> unat (last_address r)"
      by simp_all
    with pos show "sz = 0
        \<or> (address r \<le> addr \<and> unat addr + unat sz \<le> unat (last_address r) + 1)"
      by (simp add: word_le_nat_alt) arith
  next
    assume "sz = 0 \<or> (address r \<le> addr \<and> unat addr + unat sz \<le> unat (last_address r) + 1)"
    with False show "range_within addr sz r"
      by (auto simp: range_within_def region_getters word_le_nat_alt)
  qed
qed

lemma tree_find_None:
  assumes "tree_ok t" and "tree_find (KMemoryRegion_typed a a x y) t = None" and "r \<in> set t"
  shows "\<not> (address r \<le> a \<and> a \<le> last_address r)"
  using assms tree_find_stored [of t r a x y] by auto

lemma FindModifiable_Some:
  assumes "FindModifiable t a = Some f"
  shows "f \<in> set t \<and> address f \<le> a \<and> a \<le> last_address f"
proof -
  from assms have "f \<in> set t" and "Compare (KMemoryRegion_typed a a 0 0) f = 0"
    using tree_find_Some [of "KMemoryRegion_typed a a 0 0" t f]
    by (simp_all add: FindModifiable_def)
  then show ?thesis
    by (auto simp: Compare_probe split: if_splits)
qed

lemma Insert_False:
  assumes run: "Insert a t addr sz ty new_attr old_attr = Inr (False, a', t')"
    and found: "FindModifiable t addr = Some f"
  shows "unat (last_address f) + 1 < unat addr + unat sz \<and> a' = a \<and> t' = t"
proof (cases "unat (last_address f) + 1 < unat addr + unat sz")
  case True
  with run found show ?thesis
    by (simp add: Insert_def region_getters)
next
  case False
  let ?l = "addr + sz - 1"
  let ?mid = "f\<lparr>address := addr, last_address := ?l, attributes := new_attr, type_id := ty\<rparr>"
  let ?t0 = "tree_erase f t"
  let ?step1 = "if GetAddress f < addr
      then insert_new a (tree_insert (f\<lparr>last_address := addr - 1\<rparr>) ?t0) ?mid
      else Inr (a, tree_insert ?mid ?t0)"
  have no_false: "(case r1 of Inl e \<Rightarrow> Inl e
      | Inr (a1, t1) \<Rightarrow>
          (case (if ?l < GetLastAddress f
                 then insert_new a1 t1 (f\<lparr>address := addr + sz\<rparr>)
                 else Inr (a1, t1)) of
             Inl e \<Rightarrow> Inl e
           | Inr (a2, t2) \<Rightarrow> Inr (True, a2, t2))) \<noteq> Inr (False, a', t')"
    for r1 :: "error + (KMemoryRegionAllocator \<times> KMemoryRegionTree)"
    by (auto split: sum.splits prod.splits if_splits)
  from False found have "Insert a t addr sz ty new_attr old_attr = Inl AssertionFailed
      \<or> Insert a t addr sz ty new_attr old_attr =
        (case ?step1 of Inl e \<Rightarrow> Inl e
         | Inr (a1, t1) \<Rightarrow>
             (case (if ?l < GetLastAddress f
                    then insert_new a1 t1 (f\<lparr>address := addr + sz\<rparr>)
                    else Inr (a1, t1)) of
                Inl e \<Rightarrow> Inl e
              | Inr (a2, t2) \<Rightarrow> Inr (True, a2, t2)))"
    by (simp add: Insert_def Let_def GetLastAddress_def)
  with run no_false [of ?step1] show ?thesis
    by auto
qed

text \<open>
  C6. \<open>Insert\<close> returns false and leaves the tree (and the allocator) as it was whenever
  no single stored region contains the range \<open>[addr, addr + size)\<close>. In a well-formed tree
  and for a non-empty range that is the only way it returns false; every other failure
  of \<open>Insert\<close>, and of the lookups, is a failed assertion.
\<close>

theorem Insert_false_iff_not_contained:
  "(\<not> (\<exists>r\<in>set t. range_within addr sz r) \<longrightarrow>
      Insert a t addr sz ty new_attr old_attr = Inr (False, a, t))
   \<and> (tree_ok t \<and> 0 < sz \<longrightarrow>
        (\<forall>a' t'. Insert a t addr sz ty new_attr old_attr = Inr (False, a', t') \<longrightarrow>
           a' = a \<and> t' = t \<and> \<not> (\<exists>r\<in>set t. range_within addr sz r)))"
proof -
  have part1: "Insert a t addr sz ty new_attr old_attr = Inr (False, a, t)"
    if none: "\<not> (\<exists>r\<in>set t. range_within addr sz r)"
  proof (cases "FindModifiable t addr")
    case None
    then show ?thesis by (simp add: Insert_def)
  next
    case (Some f)
    then have f: "f \<in> set t" "address f \<le> addr"
      using FindModifiable_Some by blast+
    with none have "\<not> range_within addr sz f" by blast
    with f have "unat (last_address f) + 1 < unat addr + unat sz"
      by (simp add: range_within_iff)
    with Some show ?thesis
      by (simp add: Insert_def region_getters)
  qed
  have part2: "a' = a \<and> t' = t \<and> \<not> (\<exists>r\<in>set t. range_within addr sz r)"
    if ok: "tree_ok t" and pos: "0 < sz"
      and run: "Insert a t addr sz ty new_attr old_attr = Inr (False, a', t')" for a' t'
  proof -
    from pos have sz: "sz \<noteq> 0" and usz: "0 < unat sz"
      by (simp_all add: unat_gt_0)
    have reach: "address r \<le> addr \<and> addr \<le> last_address r
        \<and> unat addr + unat sz \<le> unat (last_address r) + 1"
      if "range_within addr sz r" for r
      using that sz usz by (simp add: range_within_iff word_le_nat_alt)
    show ?thesis
    proof (cases "FindModifiable t addr")
      case None
      then have "\<not> (address r \<le> addr \<and> addr \<le> last_address r)" if "r \<in> set t" for r
        using tree_find_None [OF ok _ that, of addr 0 0] by (simp add: FindModifiable_def)
      with reach have "\<not> (\<exists>r\<in>set t. range_within addr sz r)"
        by blast
      with None run show ?thesis
        by (simp add: Insert_def)
    next
      case (Some f)
      then have f: "f \<in> set t" "address f \<le> addr" "addr \<le> last_address f"
        using FindModifiable_Some by blast+
      from Insert_False [OF run Some]
      have past: "unat (last_address f) + 1 < unat addr + unat sz"
        and same: "a' = a" "t' = t"
        by simp_all
      have "\<not> range_within addr sz r" if r: "r \<in> set t" for r
      proof
        assume "range_within addr sz r"
        from reach [OF this] have in_r: "address r \<le> addr" "addr \<le> last_address r"
          and fit: "unat addr + unat sz \<le> unat (last_address r) + 1"
          by simp_all
        from ok f r in_r have "r = f"
          using tree_ok_unique [of t f r addr] by simp
        with fit past show False by simp
      qed
      with same show ?thesis by blast
    qed
  qed
  from part1 part2 show ?thesis by blast
qed

theorem Insert_false_iff_not_contained_witness:
  "tree_ok [KMemoryRegion_typed 0 0xFFFF 0 1, KMemoryRegion_typed 0x10000 0x1FFFF 0 1]
   \<and> \<not> (\<exists>r\<in>set [KMemoryRegion_typed 0 0xFFFF 0 1, KMemoryRegion_typed 0x10000 0x1FFFF 0 1].
          range_within 0xF000 0x2000 r)
   \<and> Insert KMemoryRegionAllocator_default
        [KMemoryRegion_typed 0 0xFFFF 0 1, KMemoryRegion_typed 0x10000 0x1FFFF 0 1]
        0xF000 0x2000 3 1 0
      = Inr (False, KMemoryRegionAllocator_default,
             [KMemoryRegion_typed 0 0xFFFF 0 1, KMemoryRegion_typed 0x10000 0x1FFFF 0 1])"
proof -
  let ?t = "[KMemoryRegion_typed 0 0xFFFF 0 1, KMemoryRegion_typed 0x10000 0x1FFFF 0 1]"
  have ok: "tree_ok ?t"
    by (simp add: tree_ok_def region_getters KMemoryRegion_typed_def KMemoryRegion_full_def)
  have none: "\<not> (\<exists>r\<in>set ?t. range_within 0xF000 0x2000 r)"
    by (simp add: range_within_iff KMemoryRegion_typed_def KMemoryRegion_full_def)
  note run = Insert_false_iff_not_contained
    [of ?t "0xF000" "0x2000" KMemoryRegionAllocator_default 3 1 0, THEN conjunct1, THEN mp, OF none]
  from ok none run show ?thesis
    by (intro conjI)
qed

text \<open>Splitting a region: where the pieces go, and what they cover.\<close>

lemma Compare_less_iff: "Compare x y < 0 \<longleftrightarrow> address x < address y"
  by (simp add: Compare_def region_getters)

lemma tree_insert_mid:
  "\<forall>p\<in>set pre. \<not> address x < address p \<Longrightarrow> \<forall>q\<in>set post. address x < address q \<Longrightarrow>
   tree_insert x (pre @ post) = pre @ x # post"
proof (induction pre)
  case Nil
  then show ?case
    by (cases post) (simp_all add: Compare_less_iff)
next
  case (Cons p pre)
  then show ?case
    by (simp add: Compare_less_iff)
qed

lemma tree_ok_append:
  "tree_ok (xs @ ys) \<longleftrightarrow>
     tree_ok xs \<and> tree_ok ys \<and> (\<forall>x\<in>set xs. \<forall>y\<in>set ys. last_address x < address y)"
  by (auto simp: tree_ok_def sorted_wrt_append region_getters)

lemma tree_ok_single: "tree_ok [x] \<longleftrightarrow> address x \<le> last_address x"
  by (simp add: tree_ok_def region_getters)

lemma tree_erase_mid:
  assumes "tree_ok (pre @ orig # post)"
  shows "tree_erase orig (pre @ orig # post) = pre @ post"
proof -
  from assms have "\<forall>p\<in>set pre. last_address p < address orig"
    and "address orig \<le> last_address orig"
    by (auto simp: tree_ok_append tree_ok_Cons)
  then have "orig \<notin> set pre"
    by auto
  then show ?thesis
    by (simp add: tree_erase_def remove1_append)
qed

lemma tree_ok_non_overlapping:
  assumes "tree_ok t"
  shows "non_overlapping t"
proof -
  have apart: "span (t ! i) \<inter> span (t ! j) = {}" if "i < j" and "j < length t" for i j
  proof -
    from assms that have "last_address (t ! i) < address (t ! j)"
      using sorted_wrt_nth_less [of "\<lambda>a b. GetLastAddress a < GetAddress b" t i j]
      by (simp add: tree_ok_def region_getters)
    then show ?thesis
      by (auto simp: span_def region_getters)
  qed
  show ?thesis
    unfolding non_overlapping_def
  proof (intro allI impI)
    fix i j
    assume "i < length t" and "j < length t" and "i \<noteq> j"
    then consider "i < j" | "j < i"
      by (meson nat_neq_iff)
    then show "span (t ! i) \<inter> span (t ! j) = {}"
    proof cases
      case 1
      from 1 \<open>j < length t\<close> show ?thesis by (rule apart)
    next
      case 2
      from 2 \<open>i < length t\<close> have "span (t ! j) \<inter> span (t ! i) = {}" by (rule apart)
      then show ?thesis by blast
    qed
  qed
qed

lemma split_offsets:
  fixes A B k n :: u64
  assumes n: "0 < n" and fit: "unat A + unat k + unat n \<le> unat B + 1"
  shows "unat (A + k) = unat A + unat k"
    and "unat (A + k + n - 1) = unat A + unat k + unat n - 1"
    and "0 < k \<Longrightarrow> unat (A + k - 1) = unat A + unat k - 1"
    and "unat A + unat k + unat n \<le> unat B \<Longrightarrow> unat (A + k + n) = unat A + unat k + unat n"
proof -
  have B: "unat B < 2 ^ 64"
    using unsigned_less [of B, where ?'a = nat] by simp
  from n have un: "0 < unat n"
    by (simp add: word_less_nat_alt)
  from fit un B have "unat A + unat k < 2 ^ LENGTH(64)"
    by simp
  then show ua: "unat (A + k) = unat A + unat k"
    by (simp only: unat_add_lem)
  from n have "n \<noteq> 0" by auto
  then have un1: "unat (n - 1) = unat n - 1"
    by (rule unat_minus_one)
  from fit un B ua un1 have "unat (A + k) + unat (n - 1) < 2 ^ LENGTH(64)"
    by simp
  then have "unat ((A + k) + (n - 1)) = unat (A + k) + unat (n - 1)"
    by (simp only: unat_add_lem)
  moreover have "(A + k) + (n - 1) = A + k + n - 1"
    by simp
  ultimately show "unat (A + k + n - 1) = unat A + unat k + unat n - 1"
    using ua un1 un by simp
  show "unat (A + k - 1) = unat A + unat k - 1" if "0 < k"
  proof -
    from that have "0 < unat k" by (simp add: word_less_nat_alt)
    with ua have "A + k \<noteq> 0"
      by (metis add_is_0 less_not_refl unat_0)
    then have "unat (A + k - 1) = unat (A + k) - 1"
      by (rule unat_minus_one)
    with ua show ?thesis by simp
  qed
  show "unat (A + k + n) = unat A + unat k + unat n" if "unat A + unat k + unat n \<le> unat B"
  proof -
    from that B ua have "unat (A + k) + unat n < 2 ^ LENGTH(64)"
      by simp
    then have "unat ((A + k) + n) = unat (A + k) + unat n"
      by (simp only: unat_add_lem)
    with ua show ?thesis by simp
  qed
qed

lemma split_order:
  fixes A B k n :: u64
  assumes n: "0 < n" and fit: "unat A + unat k + unat n \<le> unat B + 1"
  shows "A \<le> A + k" and "A + k \<le> A + k + n - 1" and "A + k + n - 1 \<le> B"
    and "A < A + k \<longleftrightarrow> 0 < k"
    and "A + k + n - 1 < B \<longleftrightarrow> unat A + unat k + unat n \<le> unat B"
    and "A + k + n - 1 < B \<Longrightarrow> A + k \<le> A + k + n"
    and "A + k + n - 1 < B \<Longrightarrow> A + k + n \<le> B"
    and "A + k + n - 1 < B \<Longrightarrow> A + k + n - 1 < A + k + n"
    and "0 < k \<Longrightarrow> A + k - 1 < A + k"
    and "0 < k \<Longrightarrow> A \<le> A + k - 1"
proof -
  note off = split_offsets [OF n fit]
  from n have un: "0 < unat n"
    by (simp add: word_less_nat_alt)
  show "A \<le> A + k"
    by (simp add: word_le_nat_alt off(1))
  show "A + k \<le> A + k + n - 1"
    using un by (simp add: word_le_nat_alt off(1,2))
  show "A + k + n - 1 \<le> B"
    using un fit by (simp add: word_le_nat_alt off(2))
  show "A < A + k \<longleftrightarrow> 0 < k"
    by (simp add: word_less_nat_alt off(1))
  show sfx: "A + k + n - 1 < B \<longleftrightarrow> unat A + unat k + unat n \<le> unat B"
    using un by (simp add: word_less_nat_alt off(2)) arith
  show "A + k \<le> A + k + n" if "A + k + n - 1 < B"
    using that sfx off(4) by (simp add: word_le_nat_alt off(1))
  show "A + k + n \<le> B" if "A + k + n - 1 < B"
    using that sfx off(4) by (simp add: word_le_nat_alt)
  show "A + k + n - 1 < A + k + n" if "A + k + n - 1 < B"
    using that sfx off(4) un by (simp add: word_less_nat_alt off(2))
  show "A + k - 1 < A + k" if "0 < k"
  proof -
    from that have "0 < unat k" by (simp add: word_less_nat_alt)
    then show ?thesis
      using off(3) [OF that] by (simp add: word_less_nat_alt off(1))
  qed
  show "A \<le> A + k - 1" if "0 < k"
  proof -
    from that have "0 < unat k" by (simp add: word_less_nat_alt)
    then show ?thesis
      using off(3) [OF that] by (simp add: word_le_nat_alt)
  qed
qed

lemma split_intervals:
  fixes A B k n :: u64
  assumes n: "0 < n" and fit: "unat A + unat k + unat n \<le> unat B + 1"
  shows "(if 0 < k then {A .. A + k - 1} else {}) \<union> {A + k .. A + k + n - 1}
         \<union> (if A + k + n - 1 < B then {A + k + n .. B} else {}) = {A .. B}"
proof (rule set_eqI)
  fix x :: u64
  note off = split_offsets [OF n fit]
  note ord = split_order [OF n fit]
  from n have un: "0 < unat n"
    by (simp add: word_less_nat_alt)
  let ?P = "unat A \<le> unat x \<and> unat x \<le> unat A + unat k - 1"
  let ?M = "unat A + unat k \<le> unat x \<and> unat x \<le> unat A + unat k + unat n - 1"
  let ?S = "unat A + unat k + unat n \<le> unat x \<and> unat x \<le> unat B"
  have pfx: "x \<in> (if 0 < k then {A .. A + k - 1} else {}) \<longleftrightarrow> 0 < unat k \<and> ?P"
  proof (cases "0 < k")
    case True
    then have "0 < unat k" by (simp add: word_less_nat_alt)
    with True show ?thesis
      by (simp add: word_le_nat_alt off(3) [OF True])
  next
    case False
    then show ?thesis by (simp add: word_less_nat_alt)
  qed
  have mid: "x \<in> {A + k .. A + k + n - 1} \<longleftrightarrow> ?M"
    by (simp add: word_le_nat_alt off(1,2))
  have sfx: "x \<in> (if A + k + n - 1 < B then {A + k + n .. B} else {})
      \<longleftrightarrow> unat A + unat k + unat n \<le> unat B \<and> ?S"
  proof (cases "A + k + n - 1 < B")
    case True
    with ord(5) have le: "unat A + unat k + unat n \<le> unat B" by simp
    with True show ?thesis
      by (simp add: word_le_nat_alt off(4) [OF le])
  next
    case False
    with ord(5) show ?thesis by simp
  qed
  have whole: "x \<in> {A .. B} \<longleftrightarrow> unat A \<le> unat x \<and> unat x \<le> unat B"
    by (simp add: word_le_nat_alt)
  have "((0 < unat k \<and> ?P) \<or> ?M) \<or> (unat A + unat k + unat n \<le> unat B \<and> ?S)
      \<longleftrightarrow> unat A \<le> unat x \<and> unat x \<le> unat B"
    using un fit by arith
  then show "x \<in> (if 0 < k then {A .. A + k - 1} else {}) \<union> {A + k .. A + k + n - 1}
         \<union> (if A + k + n - 1 < B then {A + k + n .. B} else {}) \<longleftrightarrow> x \<in> {A .. B}"
    by (simp only: Un_iff pfx mid sfx whole)
qed

lemma insert_new_ok:
  "num_regions a < MaxMemoryRegions \<Longrightarrow>
   insert_new a t x = Inr (construct a x, tree_insert x t)"
  by (simp add: insert_new_def Allocate_def Allocate_with_def construct_def)

lemma insert_new_full:
  "MaxMemoryRegions \<le> num_regions a \<Longrightarrow> insert_new a t x = Inl AssertionFailed"
  by (simp add: insert_new_def Allocate_def Allocate_with_def)

lemma num_regions_construct: "num_regions (construct a x) = Suc (num_regions a)"
  by (simp add: construct_def)

lemma Insert_split_run:
  fixes A B k n :: u64
  assumes ok: "tree_ok (pre @ [orig] @ post)"
    and oA: "address orig = A" and oB: "last_address orig = B" and oO: "attributes orig = Old"
    and n: "0 < n"
    and fit: "unat A + unat k + unat n \<le> unat B + 1"
    and room: "num_regions al + (if 0 < k then 1 else 0)
        + (if A + k + n - 1 < B then 1 else 0) \<le> MaxMemoryRegions"
  shows "Insert al (pre @ [orig] @ post) (A + k) n T1 New Old =
     Inr (True,
       (if A + k + n - 1 < B
        then construct
          (if 0 < k
           then construct al (orig\<lparr>address := A + k, last_address := A + k + n - 1,
                  attributes := New, type_id := T1\<rparr>)
           else al)
          (orig\<lparr>address := A + k + n\<rparr>)
        else (if 0 < k
           then construct al (orig\<lparr>address := A + k, last_address := A + k + n - 1,
                  attributes := New, type_id := T1\<rparr>)
           else al)),
       pre
       @ (if 0 < k then [orig\<lparr>last_address := A + k - 1\<rparr>] else [])
       @ [orig\<lparr>address := A + k, last_address := A + k + n - 1,
               attributes := New, type_id := T1\<rparr>]
       @ (if A + k + n - 1 < B then [orig\<lparr>address := A + k + n\<rparr>] else [])
       @ post)"
proof -
  note off = split_offsets [OF n fit]
  note ord = split_order [OF n fit]
  let ?a = "A + k"
  let ?l = "A + k + n - 1"
  let ?e = "A + k + n"
  let ?pfx = "orig\<lparr>last_address := ?a - 1\<rparr>"
  let ?mid = "orig\<lparr>address := ?a, last_address := ?l, attributes := New, type_id := T1\<rparr>"
  let ?sfx = "orig\<lparr>address := ?e\<rparr>"
  let ?ds1 = "if 0 < k then [?pfx] else []"
  let ?ds3 = "if ?l < B then [?sfx] else []"
  let ?al1 = "if 0 < k then construct al ?mid else al"
  let ?al2 = "if ?l < B then construct ?al1 ?sfx else ?al1"
  from ok have ok_pre: "tree_ok pre" and ok_rest: "tree_ok (orig # post)"
    and cross: "\<forall>x\<in>set pre. \<forall>y\<in>set (orig # post). last_address x < address y"
    by (simp_all add: tree_ok_append)
  from ok_rest oA oB have AB: "A \<le> B" and after: "\<forall>q\<in>set post. B < address q"
    by (simp_all add: tree_ok_Cons)
  from cross oA have before: "\<forall>p\<in>set pre. last_address p < A"
    by simp
  from ok_pre have valid_pre: "\<forall>p\<in>set pre. address p \<le> last_address p"
    by (simp add: tree_ok_def region_getters)
  have pre_low: "\<not> x < address p" if "p \<in> set pre" and "A \<le> x" for p x
  proof -
    from that(1) valid_pre before have "address p \<le> last_address p" "last_address p < A"
      by blast+
    then have "address p < A" by (rule le_less_trans)
    from this that(2) have "address p < x" by (rule less_le_trans)
    then show ?thesis by (simp add: not_less less_imp_le)
  qed
  have post_high: "x < address q" if "q \<in> set post" and "x \<le> B" for q x
  proof -
    from that(1) after have "B < address q" by blast
    with that(2) show ?thesis by (rule le_less_trans)
  qed
  define t where "t = pre @ [orig] @ post"
  let ?T0 = "tree_erase orig t"
  let ?step1 = "if GetAddress orig < ?a
      then insert_new al (tree_insert ?pfx ?T0) ?mid
      else Inr (al, tree_insert ?mid ?T0)"
  let ?T1 = "pre @ ?ds1 @ ?mid # post"
  let ?step2 = "if ?l < GetLastAddress orig
      then insert_new ?al1 ?T1 ?sfx
      else Inr (?al1, ?T1)"
  have found: "FindModifiable t ?a = Some orig"
    using tree_find_stored [OF ok, of orig ?a 0 0] ord(1,2,3) oA oB
    by (simp add: FindModifiable_def t_def)
  have fits: "\<not> unat (GetLastAddress orig) + 1 < unat ?a + unat n"
    using off(1) fit oB by (simp add: region_getters)
  have erase: "?T0 = pre @ post"
    using tree_erase_mid [of pre orig post] ok by (simp add: t_def)
  have a_le_B: "?a \<le> B"
    using ord(2,3) by (rule order_trans)
  have s1: "?step1 = Inr (?al1, ?T1)"
  proof (cases "0 < k")
    case True
    have p: "tree_insert ?pfx (pre @ post) = pre @ ?pfx # post"
    proof (rule tree_insert_mid)
      show "\<forall>p\<in>set pre. \<not> address ?pfx < address p"
        using pre_low [of _ A] oA by simp
      show "\<forall>q\<in>set post. address ?pfx < address q"
        using post_high [of _ A] AB oA by simp
    qed
    have "tree_insert ?mid ((pre @ [?pfx]) @ post) = (pre @ [?pfx]) @ ?mid # post"
    proof (rule tree_insert_mid)
      show "\<forall>p\<in>set (pre @ [?pfx]). \<not> address ?mid < address p"
        using pre_low [of _ ?a] ord(1) oA by (auto simp: not_less)
      show "\<forall>q\<in>set post. address ?mid < address q"
        using post_high [of _ ?a] a_le_B by simp
    qed
    then have m: "tree_insert ?mid (pre @ ?pfx # post) = pre @ ?pfx # ?mid # post"
      by simp
    from True room have "num_regions al < MaxMemoryRegions"
      by (simp split: if_splits)
    then have "insert_new al (pre @ ?pfx # post) ?mid
        = Inr (construct al ?mid, pre @ ?pfx # ?mid # post)"
      by (simp only: insert_new_ok m)
    with True ord(4) oA show ?thesis
      by (simp add: GetAddress_def erase p)
  next
    case False
    have "tree_insert ?mid (pre @ post) = pre @ ?mid # post"
    proof (rule tree_insert_mid)
      show "\<forall>p\<in>set pre. \<not> address ?mid < address p"
        using pre_low [of _ ?a] ord(1) by simp
      show "\<forall>q\<in>set post. address ?mid < address q"
        using post_high [of _ ?a] a_le_B by simp
    qed
    with False ord(4) oA show ?thesis
      by (simp add: GetAddress_def erase)
  qed
  have s2: "?step2 = Inr (?al2, pre @ ?ds1 @ [?mid] @ ?ds3 @ post)"
  proof (cases "?l < B")
    case True
    note e = ord(6) [OF True] ord(7) [OF True]
    from ord(1) e(1) have A_le_e: "A \<le> ?e" by (rule order_trans)
    have "tree_insert ?sfx ((pre @ ?ds1 @ [?mid]) @ post) = (pre @ ?ds1 @ [?mid]) @ ?sfx # post"
    proof (rule tree_insert_mid)
      show "\<forall>p\<in>set (pre @ ?ds1 @ [?mid]). \<not> address ?sfx < address p"
        using pre_low [of _ ?e] A_le_e e(1) oA by (auto simp: not_less)
      show "\<forall>q\<in>set post. address ?sfx < address q"
        using post_high [of _ ?e] e(2) by simp
    qed
    then have s: "tree_insert ?sfx ?T1 = pre @ ?ds1 @ [?mid] @ [?sfx] @ post"
      by simp
    from True room have "num_regions ?al1 < MaxMemoryRegions"
      by (simp add: num_regions_construct split: if_splits)
    then have "insert_new ?al1 ?T1 ?sfx
        = Inr (construct ?al1 ?sfx, pre @ ?ds1 @ [?mid] @ [?sfx] @ post)"
      by (simp only: insert_new_ok s)
    with True oB show ?thesis
      by (simp only: GetLastAddress_def if_True)
  next
    case False
    with oB show ?thesis
      by (simp only: GetLastAddress_def if_False append_Nil append_Cons)
  qed
  have "Insert al t ?a n T1 New Old =
      (case ?step1 of Inl e \<Rightarrow> Inl e
       | Inr (a1, t1) \<Rightarrow>
           (case (if ?l < GetLastAddress orig then insert_new a1 t1 ?sfx else Inr (a1, t1)) of
              Inl e \<Rightarrow> Inl e
            | Inr (a2, t2) \<Rightarrow> Inr (True, a2, t2)))"
    unfolding Insert_def Let_def
    by (simp only: found option.case fits if_False oO GetAttributes_def simp_thms)
  also have "\<dots> = (case ?step2 of Inl e \<Rightarrow> Inl e | Inr (a2, t2) \<Rightarrow> Inr (True, a2, t2))"
    by (simp only: s1 sum.case prod.case)
  also have "\<dots> = Inr (True, ?al2, pre @ ?ds1 @ [?mid] @ ?ds3 @ post)"
    by (simp only: s2 sum.case prod.case)
  finally show ?thesis
    by (simp only: t_def)
qed

lemma tree_ok_Nil: "tree_ok []"
  by (simp add: tree_ok_def)

lemma tree_ok_replace:
  assumes ok: "tree_ok (pre @ [orig] @ post)"
    and pieces: "tree_ok ds"
    and bounds: "\<forall>p\<in>set ds. address orig \<le> address p \<and> last_address p \<le> last_address orig"
  shows "tree_ok (pre @ ds @ post)"
proof -
  from ok have ok_pre: "tree_ok pre" and ok_rest: "tree_ok (orig # post)"
    and cross: "\<forall>x\<in>set pre. \<forall>y\<in>set (orig # post). last_address x < address y"
    by (simp_all add: tree_ok_append)
  from ok_rest have valid: "address orig \<le> last_address orig"
    and after: "\<forall>q\<in>set post. last_address orig < address q" and ok_post: "tree_ok post"
    by (simp_all add: tree_ok_Cons)
  from cross have before: "\<forall>p\<in>set pre. last_address p < address orig"
    and pre_post: "\<forall>x\<in>set pre. \<forall>y\<in>set post. last_address x < address y"
    by simp_all
  have "last_address p < address q" if "p \<in> set pre" and "q \<in> set ds" for p q
  proof -
    from that before bounds have "last_address p < address orig" "address orig \<le> address q"
      by blast+
    then show ?thesis by (rule less_le_trans)
  qed
  moreover have "last_address p < address q" if "p \<in> set ds" and "q \<in> set post" for p q
  proof -
    from that after bounds have "last_address p \<le> last_address orig"
      "last_address orig < address q"
      by blast+
    then show ?thesis by (rule le_less_trans)
  qed
  ultimately show ?thesis
    using ok_pre ok_post pieces pre_post
    by (simp only: tree_ok_append set_append) blast
qed

text \<open>
  C1 as stated fails. With \<open>n = 0\<close> the conditions \<open>0 <= k\<close> and \<open>k + n <= B - A + 1\<close> hold,
  but the middle piece \<open>[A + k, A + k + n - 1]\<close> is not a region: for the tree holding
  \<open>[0, 0xFFFF]\<close> and \<open>k = 0\<close> its last address wraps to \<open>2^64 - 1\<close>, and \<open>Insert\<close> leaves the
  single region \<open>[0, 2^64 - 1]\<close>, which covers more than \<open>[0, 0xFFFF]\<close>. And a split needs
  slots: with the arena full, \<open>Insert 0x1000 0x1000\<close> on the same tree is fatal.
\<close>

theorem Insert_split_counterexample:
  "unat (0 :: u64) + unat (0 :: u64) \<le> unat (0xFFFF :: u64) - unat (0 :: u64) + 1
   \<and> Insert KMemoryRegionAllocator_default [KMemoryRegion_typed 0 0xFFFF 0 1] (0 + 0) 0 3 1 0
       = Inr (True, KMemoryRegionAllocator_default, [KMemoryRegion_full 0 u64_max u64_max 1 3])
   \<and> 0x10000 \<in> span (KMemoryRegion_full 0 u64_max u64_max 1 3)
   \<and> 0x10000 \<notin> {0 .. 0xFFFF :: u64}
   \<and> Insert (KMemoryRegionAllocator_default\<lparr>num_regions := MaxMemoryRegions\<rparr>)
        [KMemoryRegion_typed 0 0xFFFF 0 1] (0 + 0x1000) 0x1000 3 1 0
       = Inl AssertionFailed"
proof (intro conjI)
  let ?orig = "KMemoryRegion_typed 0 0xFFFF 0 1"
  have found0: "FindModifiable [?orig] 0 = Some ?orig"
    by (simp add: FindModifiable_def Compare_def region_getters
        KMemoryRegion_typed_def KMemoryRegion_full_def)
  have found1: "FindModifiable [?orig] 0x1000 = Some ?orig"
    by (simp add: FindModifiable_def Compare_def region_getters
        KMemoryRegion_typed_def KMemoryRegion_full_def)
  show "Insert KMemoryRegionAllocator_default [?orig] (0 + 0) 0 3 1 0
       = Inr (True, KMemoryRegionAllocator_default, [KMemoryRegion_full 0 u64_max u64_max 1 3])"
    using found0
    by (simp add: Insert_def Let_def tree_erase_def region_getters
        KMemoryRegion_typed_def KMemoryRegion_full_def u64_max_def)
  have full: "insert_new (KMemoryRegionAllocator_default\<lparr>num_regions := MaxMemoryRegions\<rparr>) t x
      = Inl AssertionFailed" for t x
    by (rule insert_new_full) simp
  show "Insert (KMemoryRegionAllocator_default\<lparr>num_regions := MaxMemoryRegions\<rparr>)
        [?orig] (0 + 0x1000) 0x1000 3 1 0 = Inl AssertionFailed"
    using found1
    by (simp add: Insert_def Let_def full region_getters
        KMemoryRegion_typed_def KMemoryRegion_full_def)
  show "0x10000 \<in> span (KMemoryRegion_full 0 u64_max u64_max 1 3)"
    by (simp add: span_def region_getters KMemoryRegion_full_def u64_max_def)
qed simp_all

text \<open>
  C1, amended. Let a well-formed tree hold a region \<open>[A, B]\<close> of type \<open>T0\<close> and attribute
  \<open>Old\<close>, let \<open>1 <= n\<close> and \<open>k + n <= B - A + 1\<close>, and let the allocator have a free slot for
  each piece beyond the first. Then \<open>Insert (A + k) n T1 New Old\<close> returns true, draws
  exactly those slots, and leaves, in the place of that region and with the rest of the
  tree untouched: the prefix \<open>[A, A + k - 1]\<close> with \<open>T0\<close> and \<open>Old\<close> when \<open>k > 0\<close>, the middle
  \<open>[A + k, A + k + n - 1]\<close> with \<open>T1\<close> and \<open>New\<close>, and the suffix \<open>[A + k + n, B]\<close> with \<open>T0\<close>
  and \<open>Old\<close> when it is not empty. The pieces cover exactly \<open>[A, B]\<close>, the tree covers what
  it covered, and it is still ordered and pairwise non-overlapping.
\<close>

theorem Insert_splits_region:
  fixes A B k n :: u64
  assumes ok: "tree_ok (pre @ [orig] @ post)"
    and view: "region_view orig = (A, B, T0, Old)"
    and n: "0 < n"
    and fit: "unat k + unat n \<le> unat B - unat A + 1"
    and room: "num_regions al + (if 0 < k then 1 else 0)
        + (if A + k + n - 1 < B then 1 else 0) \<le> MaxMemoryRegions"
  shows "\<exists>al' t'. Insert al (pre @ [orig] @ post) (A + k) n T1 New Old = Inr (True, al', t')
     \<and> num_regions al' = num_regions al + (if 0 < k then 1 else 0)
          + (if A + k + n - 1 < B then 1 else 0)
     \<and> map region_view t' = map region_view pre
          @ (if 0 < k then [(A, A + k - 1, T0, Old)] else [])
          @ [(A + k, A + k + n - 1, T1, New)]
          @ (if A + k + n - 1 < B then [(A + k + n, B, T0, Old)] else [])
          @ map region_view post
     \<and> (if 0 < k then {A .. A + k - 1} else {}) \<union> {A + k .. A + k + n - 1}
         \<union> (if A + k + n - 1 < B then {A + k + n .. B} else {}) = {A .. B}
     \<and> \<Union> (span ` set t') = \<Union> (span ` set (pre @ [orig] @ post))
     \<and> tree_ok t' \<and> non_overlapping t'"
proof -
  from view have oA: "address orig = A" and oB: "last_address orig = B"
    and oT: "type_id orig = T0" and oO: "attributes orig = Old"
    by (simp_all add: region_view_def region_getters)
  from ok oA oB have AB: "A \<le> B"
    by (simp add: tree_ok_append tree_ok_Cons)
  with fit have fit': "unat A + unat k + unat n \<le> unat B + 1"
    by (simp add: word_le_nat_alt)
  note ord = split_order [OF n fit']
  note intervals = split_intervals [OF n fit']
  let ?a = "A + k"
  let ?l = "A + k + n - 1"
  let ?e = "A + k + n"
  let ?pfx = "orig\<lparr>last_address := ?a - 1\<rparr>"
  let ?mid = "orig\<lparr>address := ?a, last_address := ?l, attributes := New, type_id := T1\<rparr>"
  let ?sfx = "orig\<lparr>address := ?e\<rparr>"
  let ?ds1 = "if 0 < k then [?pfx] else []"
  let ?ds3 = "if ?l < B then [?sfx] else []"
  let ?ds = "?ds1 @ [?mid] @ ?ds3"
  let ?t' = "pre @ ?ds1 @ [?mid] @ ?ds3 @ post"
  let ?al1 = "if 0 < k then construct al ?mid else al"
  let ?al' = "if ?l < B then construct ?al1 ?sfx else ?al1"
  have run: "Insert al (pre @ [orig] @ post) ?a n T1 New Old = Inr (True, ?al', ?t')"
    using ok oA oB oO n fit' room by (rule Insert_split_run)
  have drawn: "num_regions ?al' = num_regions al + (if 0 < k then 1 else 0)
          + (if ?l < B then 1 else 0)"
    by (simp add: num_regions_construct)
  have views: "map region_view ?t' = map region_view pre
          @ (if 0 < k then [(A, ?a - 1, T0, Old)] else [])
          @ [(?a, ?l, T1, New)]
          @ (if ?l < B then [(?e, B, T0, Old)] else [])
          @ map region_view post"
    using oA oB oT oO by (simp add: region_view_def region_getters)
  have spans: "\<Union> (span ` set ?ds) = (if 0 < k then {A .. ?a - 1} else {}) \<union> {?a .. ?l}
         \<union> (if ?l < B then {?e .. B} else {})"
    using oA oB by (auto simp: span_def region_getters)
  have pieces_cover: "\<Union> (span ` set ?ds) = span orig"
    using oA oB by (simp only: spans intervals) (simp add: span_def region_getters)
  have cover: "\<Union> (span ` set ?t') = \<Union> (span ` set (pre @ [orig] @ post))"
  proof -
    have "\<Union> (span ` set (pre @ ?ds @ post)) =
        \<Union> (span ` set pre) \<union> \<Union> (span ` set ?ds) \<union> \<Union> (span ` set post)"
      by (simp only: set_append image_Un Union_Un_distrib Un_assoc)
    also have "\<dots> = \<Union> (span ` set pre) \<union> span orig \<union> \<Union> (span ` set post)"
      by (simp only: pieces_cover)
    also have "\<dots> = \<Union> (span ` set (pre @ [orig] @ post))"
      by (simp add: Un_ac)
    finally show ?thesis
      by (simp only: append_assoc)
  qed
  have ok_pieces: "tree_ok ?ds"
  proof (cases "0 < k"; cases "?l < B")
    assume c: "0 < k" "?l < B"
    from ord(9) [OF c(1)] ord(6) [OF c(2)] have "?a - 1 < ?e"
      by (rule less_le_trans)
    with c ord(2) ord(7) [OF c(2)] ord(8) [OF c(2)] ord(9) [OF c(1)] ord(10) [OF c(1)] oA oB
    show ?thesis
      by (simp add: tree_ok_Cons tree_ok_Nil)
  next
    assume c: "0 < k" "\<not> ?l < B"
    with ord(2) ord(9) [OF c(1)] ord(10) [OF c(1)] oA oB show ?thesis
      by (simp add: tree_ok_Cons tree_ok_Nil)
  next
    assume c: "\<not> 0 < k" "?l < B"
    with ord(2) ord(7) [OF c(2)] ord(8) [OF c(2)] oA oB show ?thesis
      by (simp add: tree_ok_Cons tree_ok_Nil)
  next
    assume c: "\<not> 0 < k" "\<not> ?l < B"
    with ord(2) show ?thesis
      by (simp add: tree_ok_Cons tree_ok_Nil)
  qed
  have bounds: "\<forall>p\<in>set ?ds. address orig \<le> address p \<and> last_address p \<le> last_address orig"
  proof (cases "0 < k"; cases "?l < B")
    assume c: "0 < k" "?l < B"
    from ord(1) ord(6) [OF c(2)] have "A \<le> ?e" by (rule order_trans)
    moreover from ord(9) [OF c(1)] ord(2) ord(3) have "?a - 1 \<le> B"
      by (meson less_imp_le order_trans)
    ultimately show ?thesis
      using c ord(1) ord(3) AB oA oB by simp
  next
    assume c: "0 < k" "\<not> ?l < B"
    from ord(9) [OF c(1)] ord(2) ord(3) have "?a - 1 \<le> B"
      by (meson less_imp_le order_trans)
    then show ?thesis
      using c ord(1) ord(3) AB oA oB by simp
  next
    assume c: "\<not> 0 < k" "?l < B"
    from ord(1) ord(6) [OF c(2)] have "A \<le> ?e" by (rule order_trans)
    then show ?thesis
      using c ord(1) ord(3) AB oA oB by simp
  next
    assume c: "\<not> 0 < k" "\<not> ?l < B"
    then show ?thesis
      using ord(1) ord(3) AB oA oB by simp
  qed
  have "tree_ok (pre @ ?ds @ post)"
    using ok ok_pieces bounds by (rule tree_ok_replace)
  then have ok': "tree_ok ?t'"
    by (simp only: append_assoc)
  from run drawn views intervals cover ok' tree_ok_non_overlapping [OF ok'] show ?thesis
    by blast
qed

theorem Insert_splits_region_witness:
  "InsertDirectly KMemoryRegionAllocator_default [] 0 0xFFFF 0 1
     = Inr (construct KMemoryRegionAllocator_default (KMemoryRegion_typed 0 0xFFFF 0 1),
            [] @ [KMemoryRegion_typed 0 0xFFFF 0 1] @ [])
   \<and> tree_ok ([] @ [KMemoryRegion_typed 0 0xFFFF 0 1] @ [])
   \<and> region_view (KMemoryRegion_typed 0 0xFFFF 0 1) = (0, 0xFFFF, 1, 0)
   \<and> unat (0x1000 :: u64) + unat (0x1000 :: u64) \<le> unat (0xFFFF :: u64) - unat (0 :: u64) + 1
   \<and> (\<exists>al' t'. Insert (construct KMemoryRegionAllocator_default (KMemoryRegion_typed 0 0xFFFF 0 1))
          ([] @ [KMemoryRegion_typed 0 0xFFFF 0 1] @ []) (0 + 0x1000) 0x1000 3 1 0
          = Inr (True, al', t')
        \<and> num_regions al' = 3
        \<and> map region_view t' =
            [(0, 0xFFF, 1, 0), (0x1000, 0x1FFF, 3, 1), (0x2000, 0xFFFF, 1, 0)]
        \<and> tree_ok t')"
proof -
  let ?orig = "KMemoryRegion_typed 0 0xFFFF 0 1"
  let ?al = "construct KMemoryRegionAllocator_default ?orig"
  have fresh: "num_regions KMemoryRegionAllocator_default = 0"
    by (simp add: KMemoryRegionAllocator_default_def KMemoryRegionAllocator_with_def)
  then have "num_regions KMemoryRegionAllocator_default < MaxMemoryRegions"
    by (simp add: MaxMemoryRegions_def)
  then have seed: "InsertDirectly KMemoryRegionAllocator_default [] 0 0xFFFF 0 1
      = Inr (?al, [] @ [?orig] @ [])"
    by (simp add: InsertDirectly_def insert_new_ok)
  have ok: "tree_ok ([] @ [?orig] @ [])"
    by (simp add: tree_ok_def region_getters KMemoryRegion_typed_def KMemoryRegion_full_def)
  have view: "region_view ?orig = (0, 0xFFFF, 1, 0)"
    by (simp add: region_view_def region_getters KMemoryRegion_typed_def KMemoryRegion_full_def)
  have n: "0 < (0x1000 :: u64)"
    by simp
  have fit: "unat (0x1000 :: u64) + unat (0x1000 :: u64)
      \<le> unat (0xFFFF :: u64) - unat (0 :: u64) + 1"
    by simp
  have room: "num_regions ?al + (if (0 :: u64) < 0x1000 then 1 else 0)
      + (if (0 + 0x1000 + 0x1000 - 1 :: u64) < 0xFFFF then 1 else 0) \<le> MaxMemoryRegions"
    by (simp add: num_regions_construct fresh MaxMemoryRegions_def)
  from Insert_splits_region [OF ok view n fit room, of 3 1]
  obtain al' t'
    where run: "Insert ?al ([] @ [?orig] @ []) (0 + 0x1000) 0x1000 3 1 0 = Inr (True, al', t')"
    and drawn: "num_regions al' = num_regions ?al + (if (0 :: u64) < 0x1000 then 1 else 0)
          + (if (0 + 0x1000 + 0x1000 - 1 :: u64) < 0xFFFF then 1 else 0)"
    and views: "map region_view t' = map region_view []
          @ (if (0 :: u64) < 0x1000 then [(0, 0 + 0x1000 - 1, 1, 0)] else [])
          @ [(0 + 0x1000, 0 + 0x1000 + 0x1000 - 1, 3, 1)]
          @ (if (0 + 0x1000 + 0x1000 - 1 :: u64) < 0xFFFF
             then [(0 + 0x1000 + 0x1000, 0xFFFF, 1, 0)] else [])
          @ map region_view []"
    and ok': "tree_ok t'"
    by (elim exE conjE)
  from drawn have 1: "num_regions al' = 3"
    by (simp add: num_regions_construct fresh)
  from views have 2: "map region_view t' =
      [(0, 0xFFF, 1, 0), (0x1000, 0x1FFF, 3, 1), (0x2000, 0xFFFF, 1, 0)]"
    by simp
  show ?thesis
  proof (intro conjI)
    show "\<exists>al' t'. Insert ?al ([] @ [?orig] @ []) (0 + 0x1000) 0x1000 3 1 0
          = Inr (True, al', t')
        \<and> num_regions al' = 3
        \<and> map region_view t' =
            [(0, 0xFFF, 1, 0), (0x1000, 0x1FFF, 3, 1), (0x2000, 0xFFFF, 1, 0)]
        \<and> tree_ok t'"
      using run 1 2 ok' by (intro exI [of _ al'] exI [of _ t'] conjI)
  qed (rule seed ok view fit)+
qed

section \<open>Randomized placement with guard space\<close>







end
